theory Spec2Isabelle
  imports Main "HOL-Library.Word"
begin

section \<open>The block based queue of bbq.h, executed sequentially\<close>

text \<open>
  The model follows \<^verbatim>\<open>PEX::BBQ::SPSC::Queue<T, N, B>\<close> of \<^verbatim>\<open>bbq.h\<close>. Every call runs
  from entry to return with no other thread in between, so an atomic load reads the
  last value stored and the memory orders play no part. The template parameters
  \<open>N\<close> and \<open>B\<close> are arguments of the functions that use them.

  What the C++ leaves undefined is an error value of the model: an index outside the
  array of blocks or outside the slots of a block, and the remainder by \<open>NE\<close> when
  \<open>NE\<close> is zero. The \<^verbatim>\<open>while(true)\<close> loops take a bound on their number of iterations
  and report when the bound is used up.
\<close>

datatype error = OutOfBounds | DivByZero | OutOfFuel

subsection \<open>Template constants\<close>

text \<open>\<^verbatim>\<open>static constexpr size_t NE = N / B;\<close>\<close>

definition NE :: "nat \<Rightarrow> nat \<Rightarrow> nat" where
  "NE N B = N div B"

text \<open>
  The two \<^verbatim>\<open>static_assert\<close>s of the class, \<^verbatim>\<open>NE < (1UL << INDEX_BITS)\<close> and
  \<^verbatim>\<open>N % B == 0\<close>, together with \<open>B > 0\<close> (the constant \<open>N / B\<close> must exist) and
  \<open>N > 0\<close> (a block has at least one slot).
\<close>

definition valid_params :: "nat \<Rightarrow> nat \<Rightarrow> bool" where
  "valid_params N B \<longleftrightarrow> 0 < B \<and> 0 < N \<and> N mod B = 0 \<and> NE N B < 2 ^ 20"

subsection \<open>Field\<close>

text \<open>
  \<^verbatim>\<open>struct { uint64_t version : 44; uint64_t index : 20; }\<close>. A 44 bit field keeps
  the type \<^verbatim>\<open>uint64_t\<close> in an expression, so \<^verbatim>\<open>version + 1\<close> is computed without
  wrap-around and only a store into the field truncates; the 20 bit field is promoted
  to \<^verbatim>\<open>int\<close>.
\<close>

record Field =
  version :: "44 word"
  index :: "20 word"

text \<open>\<^verbatim>\<open>Field(uint64_t vsn, uint64_t idx)\<close>: both arguments are truncated by the store.\<close>

definition Field_ctor :: "nat \<Rightarrow> nat \<Rightarrow> Field" where
  "Field_ctor vsn idx = \<lparr>version = of_nat vsn, index = of_nat idx\<rparr>"

text \<open>\<^verbatim>\<open>Field operator+(uint64_t n) { index += n; return *this; }\<close>\<close>

definition Field_plus :: "Field \<Rightarrow> nat \<Rightarrow> Field" where
  "Field_plus f n = f\<lparr>index := index f + of_nat n\<rparr>"

subsection \<open>Block and Queue\<close>

record 'a Block =
  alloc :: Field
  comm :: Field
  resv :: Field
  cons :: Field
  data :: "'a list"

text \<open>\<^verbatim>\<open>Block::init\<close> stores one Field into the four cursors; the slots keep what they hold.\<close>

definition Block_init :: "nat \<Rightarrow> 'a list \<Rightarrow> 'a Block" where
  "Block_init idx slots =
     (let f = Field_ctor 0 idx
      in \<lparr>alloc = f, comm = f, resv = f, cons = f, data = slots\<rparr>)"

datatype RetStatus = NO_ENTRY | NOT_AVAILABLE | SUCCESS | BLOCK_DONE

record 'a Queue =
  blocks :: "'a Block list"
  phead :: Field
  chead :: Field

text \<open>
  The constructor \<^verbatim>\<open>Queue()\<close>. It does not write the slots: \<open>mem i j\<close> is what slot
  \<open>j\<close> of block \<open>i\<close> holds when the object is created.
\<close>

definition Queue_ctor :: "nat \<Rightarrow> nat \<Rightarrow> (nat \<Rightarrow> nat \<Rightarrow> 'a) \<Rightarrow> 'a Queue" where
  "Queue_ctor N B mem =
     \<lparr>blocks = map (\<lambda>i. Block_init (if i = 0 then 0 else NE N B) (map (mem i) [0..<NE N B])) [0..<B],
      phead = Field_ctor 0 0,
      chead = Field_ctor 0 0\<rparr>"

text \<open>The layout the types fix: \<open>B\<close> blocks of \<open>NE\<close> slots each.\<close>

definition wf_queue :: "nat \<Rightarrow> nat \<Rightarrow> 'a Queue \<Rightarrow> bool" where
  "wf_queue N B q \<longleftrightarrow>
     length (blocks q) = B \<and> list_all (\<lambda>b. length (data b) = NE N B) (blocks q)"

subsection \<open>Producer path\<close>

definition allocate_entry :: "nat \<Rightarrow> nat \<Rightarrow> 'a Block \<Rightarrow> (RetStatus \<times> int) \<times> 'a Block" where
  "allocate_entry N B b =
     (let a = alloc b in
      if NE N B \<le> unat (index a) then ((BLOCK_DONE, - 1), b)
      else
        let old_alloc = alloc b;
            old = uint (index old_alloc);
            b' = b\<lparr>alloc := Field_plus old_alloc 1\<rparr>
        in if NE N B \<le> nat old then ((BLOCK_DONE, - 1), b')
           else ((SUCCESS, old), b'))"

definition commit_entry :: "'a Block \<Rightarrow> int \<Rightarrow> 'a \<Rightarrow> error + 'a Block" where
  "commit_entry b idx t =
     (if idx < 0 \<or> length (data b) \<le> nat idx then Inl OutOfBounds
      else
        let b' = b\<lparr>data := (data b)[nat idx := t]\<rparr>;
            c = comm b'
        in Inr (b'\<lparr>comm := Field_plus c 1\<rparr>))"

text \<open>
  \<^verbatim>\<open>advance_phead(Field ph)\<close>. \<open>nb\<close> is a pointer into the ring, so the two raised
  cursors are written back to block \<open>(ph.index + 1) % B\<close>. The head wraps against
  \<open>NE\<close>, as the source has it.
\<close>

definition advance_phead :: "nat \<Rightarrow> nat \<Rightarrow> Field \<Rightarrow> 'a Queue \<Rightarrow> error + (RetStatus \<times> 'a Queue)" where
  "advance_phead N B ph q =
     (let j = (unat (index ph) + 1) mod B in
      if length (blocks q) \<le> j then Inl OutOfBounds
      else
        let nb = blocks q ! j;
            c = cons nb
        in if version c < version ph \<or> (version c = version ph \<and> unat (index c) \<noteq> NE N B)
           then
             (let r = resv nb
              in if index r = index c then Inr (NO_ENTRY, q) else Inr (NOT_AVAILABLE, q))
           else
             let f = Field_ctor (unat (version ph) + 1) 0;
                 a = alloc nb;
                 nb1 = (if version a < version f then nb\<lparr>alloc := f\<rparr> else nb);
                 co = comm nb1;
                 nb2 = (if version co < version f then nb1\<lparr>comm := f\<rparr> else nb1);
                 q1 = q\<lparr>blocks := (blocks q)[j := nb2]\<rparr>;
                 ph1 = Field_plus ph 1
             in if NE N B \<le> unat (index ph1)
                then
                  (if NE N B = 0 then Inl DivByZero
                   else Inr (SUCCESS,
                     q1\<lparr>phead := \<lparr>version = version ph1 + 1,
                                  index = of_nat (unat (index ph1) mod NE N B)\<rparr>\<rparr>))
                else Inr (SUCCESS, q1\<lparr>phead := ph1\<rparr>))"

text \<open>
  \<^verbatim>\<open>bool enqueue(T t)\<close>. The first argument bounds the iterations of the
  \<^verbatim>\<open>while(true)\<close> loop.
\<close>

fun enqueue :: "nat \<Rightarrow> nat \<Rightarrow> nat \<Rightarrow> 'a \<Rightarrow> 'a Queue \<Rightarrow> error + (bool \<times> 'a Queue)" where
  "enqueue 0 N B t q = Inl OutOfFuel"
| "enqueue (Suc fuel) N B t q =
     (let ph = phead q;
          i = unat (index ph)
      in if length (blocks q) \<le> i then Inl OutOfBounds
         else
           case allocate_entry N B (blocks q ! i) of
             (retval, b) \<Rightarrow>
               if fst retval = SUCCESS
               then
                 (case commit_entry b (snd retval) t of
                    Inl e \<Rightarrow> Inl e
                  | Inr b' \<Rightarrow> Inr (True, q\<lparr>blocks := (blocks q)[i := b']\<rparr>))
               else
                 (case advance_phead N B ph (q\<lparr>blocks := (blocks q)[i := b]\<rparr>) of
                    Inl e \<Rightarrow> Inl e
                  | Inr (ret, q') \<Rightarrow>
                      if ret = SUCCESS then enqueue fuel N B t q' else Inr (False, q')))"

subsection \<open>Consumer path\<close>

text \<open>
  \<^verbatim>\<open>reserve_entry(Block* b)\<close>. The first argument bounds the iterations of its
  \<^verbatim>\<open>while (true)\<close> loop; \<open>res\<close> and \<open>oldres\<close> are two further loads of \<open>b->resv\<close>.
\<close>

fun reserve_entry :: "nat \<Rightarrow> nat \<Rightarrow> nat \<Rightarrow> 'a Block \<Rightarrow> error + ((RetStatus \<times> Field) \<times> 'a Block)" where
  "reserve_entry 0 N B b = Inl OutOfFuel"
| "reserve_entry (Suc fuel) N B b =
     (let r = resv b in
      if unat (index r) < NE N B
      then
        let c = comm b in
        if index r = index c then Inr ((NO_ENTRY, r), b)
        else if unat (index c) \<noteq> NE N B \<and> index (alloc b) \<noteq> index c
        then Inr ((NOT_AVAILABLE, r), b)
        else
          let res = resv b;
              mx = max (uint (index res)) (uint (index r) + 1);
              newresv = Field_ctor (unat (version r)) (nat mx);
              oldres = resv b;
              b' = b\<lparr>resv := newresv\<rparr>
          in if index oldres = index r then Inr ((SUCCESS, r), b')
             else reserve_entry fuel N B b'
      else Inr ((BLOCK_DONE, r), b))"

definition consume_entry :: "'a::zero Block \<Rightarrow> Field \<Rightarrow> error + ('a \<times> 'a Block)" where
  "consume_entry b f =
     (let p = unat (index f) in
      if length (data b) \<le> p then Inl OutOfBounds
      else
        let d = data b ! p;
            b' = b\<lparr>data := (data b)[p := 0]\<rparr>;
            c = cons b'
        in Inr (d, b'\<lparr>cons := Field_plus c 1\<rparr>))"

text \<open>
  \<^verbatim>\<open>advance_chead(Field ch, int version)\<close>. The second parameter is never read;
  it is kept as the argument \<open>vsn\<close>.
\<close>

definition advance_chead :: "nat \<Rightarrow> nat \<Rightarrow> Field \<Rightarrow> int \<Rightarrow> 'a Queue \<Rightarrow> error + (bool \<times> 'a Queue)" where
  "advance_chead N B ch vsn q =
     (let j = (unat (index ch) + 1) mod B in
      if length (blocks q) \<le> j then Inl OutOfBounds
      else
        let nb = blocks q ! j;
            c = comm nb
        in if unat (version c) \<noteq> unat (version ch) + 1 then Inr (False, q)
           else
             let f = Field_ctor (unat (version ch) + 1) 0;
                 cns = cons nb;
                 nb1 = (if version cns < version f then nb\<lparr>cons := f\<rparr> else nb);
                 rsv = resv nb1;
                 nb2 = (if version rsv < version f then nb1\<lparr>resv := f\<rparr> else nb1);
                 q1 = q\<lparr>blocks := (blocks q)[j := nb2]\<rparr>;
                 ch1 = Field_plus ch 1
             in if NE N B \<le> unat (index ch1)
                then
                  (if NE N B = 0 then Inl DivByZero
                   else Inr (True,
                     q1\<lparr>chead := \<lparr>version = version ch1 + 1,
                                  index = of_nat (unat (index ch1) mod NE N B)\<rparr>\<rparr>))
                else Inr (True, q1\<lparr>chead := ch1\<rparr>))"

text \<open>
  \<^verbatim>\<open>bool dequeue(T& t)\<close>. The reference argument is passed in and handed back: it is
  assigned only on success. The conversion of the 44 bit version to \<^verbatim>\<open>int\<close> for the
  unused parameter of \<^verbatim>\<open>advance_chead\<close> keeps the low 32 bits.
\<close>

fun dequeue :: "nat \<Rightarrow> nat \<Rightarrow> nat \<Rightarrow> 'a::zero \<Rightarrow> 'a Queue \<Rightarrow> error + (bool \<times> 'a \<times> 'a Queue)" where
  "dequeue 0 N B t q = Inl OutOfFuel"
| "dequeue (Suc fuel) N B t q =
     (let ch = chead q;
          i = unat (index ch)
      in if length (blocks q) \<le> i then Inl OutOfBounds
         else
           case reserve_entry (Suc fuel) N B (blocks q ! i) of
             Inl e \<Rightarrow> Inl e
           | Inr (retval, b) \<Rightarrow>
               if fst retval = SUCCESS
               then
                 (case consume_entry b (snd retval) of
                    Inl e \<Rightarrow> Inl e
                  | Inr (d, b') \<Rightarrow> Inr (True, d, q\<lparr>blocks := (blocks q)[i := b']\<rparr>))
               else if fst retval = NO_ENTRY then Inr (False, t, q\<lparr>blocks := (blocks q)[i := b]\<rparr>)
               else if fst retval = NOT_AVAILABLE then Inr (False, t, q\<lparr>blocks := (blocks q)[i := b]\<rparr>)
               else
                 (case advance_chead N B ch
                         (sint (ucast (version (snd retval)) :: 32 word))
                         (q\<lparr>blocks := (blocks q)[i := b]\<rparr>) of
                    Inl e \<Rightarrow> Inl e
                  | Inr (ok, q') \<Rightarrow>
                      if ok then dequeue fuel N B t q' else Inr (False, t, q')))"

subsection \<open>Sequential executions\<close>

text \<open>
  A caller makes complete calls one after the other. \<open>Dequeue t\<close> is a call of
  \<^verbatim>\<open>dequeue\<close> whose reference argument holds \<open>t\<close> on entry. Each call is recorded with
  the value it was given or handed back and the boolean it returned.
\<close>

datatype 'a call = Enqueue 'a | Dequeue 'a

datatype 'a outcome = Enqueued 'a bool | Dequeued 'a bool

fun perform :: "nat \<Rightarrow> nat \<Rightarrow> nat \<Rightarrow> 'a::zero call \<Rightarrow> 'a Queue \<Rightarrow> error + ('a outcome \<times> 'a Queue)" where
  "perform fuel N B (Enqueue t) q =
     (case enqueue fuel N B t q of
        Inl e \<Rightarrow> Inl e
      | Inr (ok, q') \<Rightarrow> Inr (Enqueued t ok, q'))"
| "perform fuel N B (Dequeue t) q =
     (case dequeue fuel N B t q of
        Inl e \<Rightarrow> Inl e
      | Inr (ok, t', q') \<Rightarrow> Inr (Dequeued t' ok, q'))"

fun run :: "nat \<Rightarrow> nat \<Rightarrow> nat \<Rightarrow> 'a::zero call list \<Rightarrow> 'a Queue \<Rightarrow> error + ('a outcome list \<times> 'a Queue)" where
  "run fuel N B [] q = Inr ([], q)"
| "run fuel N B (c # cs) q =
     (case perform fuel N B c q of
        Inl e \<Rightarrow> Inl e
      | Inr (out, q') \<Rightarrow>
          (case run fuel N B cs q' of
             Inl e \<Rightarrow> Inl e
           | Inr (outs, q'') \<Rightarrow> Inr (out # outs, q'')))"

section \<open>Notions used to state the properties\<close>

text \<open>
  The test of \<^verbatim>\<open>advance_phead\<close> on the consume cursor of the next block: the block
  cannot be reused yet.
\<close>

definition reuse_blocked :: "nat \<Rightarrow> nat \<Rightarrow> Field \<Rightarrow> 'a Block \<Rightarrow> bool" where
  "reuse_blocked N B ph nb \<longleftrightarrow>
     version (cons nb) < version ph \<or>
     (version (cons nb) = version ph \<and> unat (index (cons nb)) \<noteq> NE N B)"

text \<open>The update the source marks "should be atomic max": store \<open>f\<close> only over an older version.\<close>

definition raise_to :: "Field \<Rightarrow> Field \<Rightarrow> Field" where
  "raise_to f c = (if version c < version f then f else c)"

text \<open>The head after \<^verbatim>\<open>h + 1\<close> and the wrap against \<open>NE\<close>, shared by the two advances.\<close>

definition next_head :: "nat \<Rightarrow> nat \<Rightarrow> Field \<Rightarrow> Field" where
  "next_head N B h =
     (if NE N B \<le> unat (index h + 1)
      then \<lparr>version = version h + 1, index = of_nat (unat (index h + 1) mod NE N B)\<rparr>
      else h\<lparr>index := index h + 1\<rparr>)"

text \<open>Fields are ordered by version first, then by index.\<close>

definition Field_le :: "Field \<Rightarrow> Field \<Rightarrow> bool" where
  "Field_le f g \<longleftrightarrow> version f < version g \<or> (version f = version g \<and> index f \<le> index g)"

text \<open>
  The position of a cursor within generation \<open>g\<close> of its block: its index when the
  cursor carries that generation, and 0 while it still carries another one.
\<close>

definition position_in :: "44 word \<Rightarrow> Field \<Rightarrow> nat" where
  "position_in g c = (if version c = g then unat (index c) else 0)"

text \<open>
  What holds of every block between two calls: the producer's two cursors agree, the
  consumer's two cursors agree, no index exceeds \<open>NE\<close>, and the consumer is not ahead
  of the producer.
\<close>

definition block_inv :: "nat \<Rightarrow> nat \<Rightarrow> 'a Block \<Rightarrow> bool" where
  "block_inv N B b \<longleftrightarrow>
     alloc b = comm b \<and> resv b = cons b \<and>
     unat (index (alloc b)) \<le> NE N B \<and> unat (index (resv b)) \<le> NE N B \<and>
     Field_le (resv b) (comm b) \<and> length (data b) = NE N B"

definition queue_inv :: "nat \<Rightarrow> nat \<Rightarrow> 'a Queue \<Rightarrow> bool" where
  "queue_inv N B q \<longleftrightarrow> length (blocks q) = B \<and> list_all (block_inv N B) (blocks q)"

text \<open>No cursor of a block moves backwards.\<close>

definition block_advances :: "'a Block \<Rightarrow> 'a Block \<Rightarrow> bool" where
  "block_advances b b' \<longleftrightarrow>
     Field_le (alloc b) (alloc b') \<and> Field_le (comm b) (comm b') \<and>
     Field_le (resv b) (resv b') \<and> Field_le (cons b) (cons b')"

definition queue_advances :: "'a Queue \<Rightarrow> 'a Queue \<Rightarrow> bool" where
  "queue_advances q q' \<longleftrightarrow> list_all2 block_advances (blocks q) (blocks q')"

subsection \<open>States of small queues\<close>

text \<open>
  \<^verbatim>\<open>Queue<T, 1, 1>\<close>, one block of one slot: after \<^verbatim>\<open>enqueue(7)\<close>; after the
  \<^verbatim>\<open>dequeue\<close> that follows; after a further \<^verbatim>\<open>enqueue(8)\<close>.
\<close>

definition one_slot_full :: "nat Queue" where
  "one_slot_full =
     \<lparr>blocks = [\<lparr>alloc = Field_ctor 0 1, comm = Field_ctor 0 1,
                 resv = Field_ctor 0 0, cons = Field_ctor 0 0, data = [7]\<rparr>],
      phead = Field_ctor 0 0, chead = Field_ctor 0 0\<rparr>"

definition one_slot_drained :: "nat Queue" where
  "one_slot_drained =
     \<lparr>blocks = [\<lparr>alloc = Field_ctor 0 1, comm = Field_ctor 0 1,
                 resv = Field_ctor 0 1, cons = Field_ctor 0 1, data = [0]\<rparr>],
      phead = Field_ctor 0 0, chead = Field_ctor 0 0\<rparr>"

definition one_slot_second :: "nat Queue" where
  "one_slot_second =
     \<lparr>blocks = [\<lparr>alloc = Field_ctor 1 1, comm = Field_ctor 1 1,
                 resv = Field_ctor 0 1, cons = Field_ctor 0 1, data = [8]\<rparr>],
      phead = Field_ctor 1 0, chead = Field_ctor 0 0\<rparr>"

text \<open>
  \<^verbatim>\<open>Queue<T, 4, 2>\<close> after \<^verbatim>\<open>enqueue(1)\<close>, \<^verbatim>\<open>enqueue(2)\<close>, \<^verbatim>\<open>enqueue(3)\<close> and one
  \<^verbatim>\<open>dequeue\<close>, and after a further \<^verbatim>\<open>enqueue(4)\<close>.
\<close>

definition two_blocks_three_in :: "nat Queue" where
  "two_blocks_three_in =
     \<lparr>blocks = [\<lparr>alloc = Field_ctor 0 2, comm = Field_ctor 0 2,
                 resv = Field_ctor 0 1, cons = Field_ctor 0 1, data = [0, 2]\<rparr>,
                \<lparr>alloc = Field_ctor 1 1, comm = Field_ctor 1 1,
                 resv = Field_ctor 0 2, cons = Field_ctor 0 2, data = [3, 0]\<rparr>],
      phead = Field_ctor 0 1, chead = Field_ctor 0 0\<rparr>"

definition two_blocks_four_in :: "nat Queue" where
  "two_blocks_four_in =
     \<lparr>blocks = [\<lparr>alloc = Field_ctor 0 2, comm = Field_ctor 0 2,
                 resv = Field_ctor 0 1, cons = Field_ctor 0 1, data = [0, 2]\<rparr>,
                \<lparr>alloc = Field_ctor 1 2, comm = Field_ctor 1 2,
                 resv = Field_ctor 0 2, cons = Field_ctor 0 2, data = [3, 4]\<rparr>],
      phead = Field_ctor 0 1, chead = Field_ctor 0 0\<rparr>"

text \<open>
  A block of \<^verbatim>\<open>Queue<T, 3, 1>\<close> caught between the two stores of an enqueue: the
  second slot is allocated and not yet committed.
\<close>

definition block_mid_write :: "nat Block" where
  "block_mid_write =
     \<lparr>alloc = Field_ctor 0 2, comm = Field_ctor 0 1,
      resv = Field_ctor 0 0, cons = Field_ctor 0 0, data = [1, 2, 0]\<rparr>"

subsection \<open>Queues with as many blocks as slots in a block\<close>

text \<open>
  When \<open>NE = B\<close>, that is \<open>N = B * B\<close>, the wrap of a head against \<open>NE\<close> is the wrap
  against the number of blocks. The states such a queue reaches by complete calls are
  described by two positions, one of the producer and one of the consumer.
\<close>

definition square :: "nat \<Rightarrow> nat \<Rightarrow> bool" where
  "square N B \<longleftrightarrow> valid_params N B \<and> N = B * B"

text \<open>
  A position: the lap round the ring, the block under the head, and the number of slots
  of that block already used on this lap.
\<close>

record pos =
  lap :: nat
  blk :: nat
  fill :: nat

definition start_pos :: pos where
  "start_pos = \<lparr>lap = 0, blk = 0, fill = 0\<rparr>"

text \<open>
  The cursor pair that one side keeps in block \<open>j\<close>. Blocks before the head were filled on
  this lap, blocks after it on the lap before. Block 0 starts at version 0 and every other
  block is entered at version 1 first, since \<^verbatim>\<open>Queue()\<close> builds them as \<open>(0, NE)\<close>.
\<close>

definition gen :: "nat \<Rightarrow> nat \<Rightarrow> nat" where
  "gen j L = (if j = 0 then L else Suc L)"

definition side_pair :: "nat \<Rightarrow> pos \<Rightarrow> nat \<Rightarrow> nat \<times> nat" where
  "side_pair n P j =
     (if j < blk P then (gen j (lap P), n)
      else if j = blk P then (gen j (lap P), fill P)
      else (lap P, n))"

definition side_cursor :: "nat \<Rightarrow> pos \<Rightarrow> nat \<Rightarrow> Field" where
  "side_cursor n P j = Field_ctor (fst (side_pair n P j)) (snd (side_pair n P j))"

definition ring_state :: "nat \<Rightarrow> pos \<Rightarrow> pos \<Rightarrow> (nat \<Rightarrow> 'a list) \<Rightarrow> 'a Queue" where
  "ring_state n P C slots =
     \<lparr>blocks = map (\<lambda>j. \<lparr>alloc = side_cursor n P j, comm = side_cursor n P j,
                         resv = side_cursor n C j, cons = side_cursor n C j,
                         data = slots j\<rparr>) [0..<n],
      phead = Field_ctor (lap P) (blk P),
      chead = Field_ctor (lap C) (blk C)\<rparr>"

text \<open>
  The next slot of a position, and the position of a head that has just entered the next
  block.
\<close>

definition succ_pos :: "nat \<Rightarrow> pos \<Rightarrow> pos" where
  "succ_pos n P =
     (if fill P < n then P\<lparr>fill := Suc (fill P)\<rparr>
      else if Suc (blk P) < n then P\<lparr>blk := Suc (blk P), fill := Suc 0\<rparr>
      else \<lparr>lap = Suc (lap P), blk = 0, fill = Suc 0\<rparr>)"

definition entered :: "nat \<Rightarrow> pos \<Rightarrow> pos" where
  "entered n P =
     (if Suc (blk P) < n then \<lparr>lap = lap P, blk = Suc (blk P), fill = 0\<rparr>
      else \<lparr>lap = Suc (lap P), blk = 0, fill = 0\<rparr>)"

text \<open>
  The positions that occur: the consumer is behind the producer by at most one lap.
\<close>

definition pos_ok :: "nat \<Rightarrow> pos \<Rightarrow> bool" where
  "pos_ok n P \<longleftrightarrow> blk P < n \<and> fill P \<le> n \<and> (fill P = 0 \<longrightarrow> lap P = 0 \<and> blk P = 0)"

definition in_step :: "nat \<Rightarrow> pos \<Rightarrow> pos \<Rightarrow> bool" where
  "in_step n P C \<longleftrightarrow>
     (lap C = lap P \<and> (blk C < blk P \<or> (blk C = blk P \<and> fill C \<le> fill P))) \<or>
     (lap P = Suc (lap C) \<and> (blk P < blk C \<or> (blk P = blk C \<and> fill C = n)))"

definition same_pos :: "pos \<Rightarrow> pos \<Rightarrow> bool" where
  "same_pos P C \<longleftrightarrow> lap C = lap P \<and> blk C = blk P \<and> fill C = fill P"

text \<open>
  The producer is at the end of its block and the next block still holds items of the lap
  before.
\<close>

definition stalled :: "nat \<Rightarrow> pos \<Rightarrow> pos \<Rightarrow> bool" where
  "stalled n P C \<longleftrightarrow>
     fill P = n \<and>
     (case side_pair n C (Suc (blk P) mod n) of
        (v, i) \<Rightarrow> v < lap P \<or> (v = lap P \<and> i \<noteq> n))"

text \<open>
  The number of slots a side has passed, and the slots that hold the items accepted and
  not yet delivered: item \<open>m\<close> is in slot \<open>m mod B\<close> of block \<open>m mod (B * B) div B\<close>.
\<close>

definition count :: "nat \<Rightarrow> pos \<Rightarrow> nat" where
  "count n P = lap P * (n * n) + blk P * n + fill P"

definition slots_hold :: "nat \<Rightarrow> (nat \<Rightarrow> 'a list) \<Rightarrow> 'a list \<Rightarrow> nat \<Rightarrow> bool" where
  "slots_hold n s E d \<longleftrightarrow>
     (\<forall>m. d \<le> m \<and> m < length E \<longrightarrow> s ((m mod (n * n)) div n) ! (m mod n) = E ! m)"

definition ring_rel :: "nat \<Rightarrow> pos \<Rightarrow> pos \<Rightarrow> (nat \<Rightarrow> 'a list) \<Rightarrow> 'a list \<Rightarrow> nat \<Rightarrow> bool" where
  "ring_rel n P C s E d \<longleftrightarrow>
     pos_ok n P \<and> pos_ok n C \<and> in_step n P C \<and>
     count n P = length E \<and> count n C = d \<and>
     (\<forall>j<n. length (s j) = n) \<and> slots_hold n s E d"

text \<open>
  The values accepted and the values delivered by a sequence of calls.
\<close>

fun accepted :: "'a outcome list \<Rightarrow> 'a list" where
  "accepted [] = []"
| "accepted (Enqueued t ok # outs) = (if ok then t # accepted outs else accepted outs)"
| "accepted (Dequeued x ok # outs) = accepted outs"

fun delivered :: "'a outcome list \<Rightarrow> 'a list" where
  "delivered [] = []"
| "delivered (Enqueued t ok # outs) = delivered outs"
| "delivered (Dequeued x ok # outs) = (if ok then x # delivered outs else delivered outs)"

section \<open>One loop iteration of each operation\<close>

text \<open>
  The operations written out for one iteration, with the branches that cannot be taken
  in a sequential execution removed.
\<close>

lemma NE_pos: "valid_params N B \<Longrightarrow> 0 < NE N B"
  unfolding valid_params_def NE_def
  by (auto simp: div_greater_zero_iff dest!: dvd_imp_le [of B N])

lemma Field_ctor_succ: "Field_ctor (Suc (unat v)) 0 = \<lparr>version = v + 1, index = 0\<rparr>"
  by (simp add: Field_ctor_def)

lemma Field_plus_1: "Field_plus f (Suc 0) = f\<lparr>index := index f + 1\<rparr>"
  by (simp add: Field_plus_def)

lemma Field_ctor_bump:
  "Field_ctor (unat (version r)) (nat (uint (index r) + 1)) = r\<lparr>index := index r + 1\<rparr>"
proof -
  have "nat (uint (index r) + 1) = Suc (unat (index r))"
    by (simp add: nat_add_distrib)
  then show ?thesis by (simp add: Field_ctor_def)
qed

lemma allocate_entry_eq:
  "allocate_entry N B b =
     (if NE N B \<le> unat (index (alloc b)) then ((BLOCK_DONE, - 1), b)
      else ((SUCCESS, uint (index (alloc b))), b\<lparr>alloc := (alloc b)\<lparr>index := index (alloc b) + 1\<rparr>\<rparr>))"
  by (simp add: allocate_entry_def Let_def Field_plus_1)

lemma reserve_entry_eq:
  "reserve_entry (Suc fuel) N B b =
     (if unat (index (resv b)) < NE N B
      then
        if index (resv b) = index (comm b) then Inr ((NO_ENTRY, resv b), b)
        else if unat (index (comm b)) \<noteq> NE N B \<and> index (alloc b) \<noteq> index (comm b)
        then Inr ((NOT_AVAILABLE, resv b), b)
        else Inr ((SUCCESS, resv b), b\<lparr>resv := (resv b)\<lparr>index := index (resv b) + 1\<rparr>\<rparr>)
      else Inr ((BLOCK_DONE, resv b), b))"
  by (simp add: Let_def Field_ctor_bump)

lemma enqueue_eq:
  assumes "unat (index (phead q)) < length (blocks q)"
  shows "enqueue (Suc fuel) N B t q =
     (let i = unat (index (phead q)); b = blocks q ! i; p = unat (index (alloc b)) in
      if p < NE N B
      then
        if length (data b) \<le> p then Inl OutOfBounds
        else Inr (True, q\<lparr>blocks := (blocks q)[i := b
               \<lparr>alloc := (alloc b)\<lparr>index := index (alloc b) + 1\<rparr>,
                data := (data b)[p := t],
                comm := (comm b)\<lparr>index := index (comm b) + 1\<rparr>\<rparr>]\<rparr>)
      else
        case advance_phead N B (phead q) q of
          Inl e \<Rightarrow> Inl e
        | Inr (ret, q') \<Rightarrow> if ret = SUCCESS then enqueue fuel N B t q' else Inr (False, q'))"
  using assms
  by (simp add: Let_def allocate_entry_eq commit_entry_def Field_plus_1 not_le)

lemma dequeue_eq:
  assumes "unat (index (chead q)) < length (blocks q)"
  shows "dequeue (Suc fuel) N B t q =
     (let i = unat (index (chead q)); b = blocks q ! i; p = unat (index (resv b)) in
      if p < NE N B
      then
        if index (resv b) = index (comm b) \<or>
           (unat (index (comm b)) \<noteq> NE N B \<and> index (alloc b) \<noteq> index (comm b))
        then Inr (False, t, q)
        else if length (data b) \<le> p then Inl OutOfBounds
        else Inr (True, data b ! p, q\<lparr>blocks := (blocks q)[i := b
               \<lparr>resv := (resv b)\<lparr>index := index (resv b) + 1\<rparr>,
                data := (data b)[p := 0],
                cons := (cons b)\<lparr>index := index (cons b) + 1\<rparr>\<rparr>]\<rparr>)
      else
        case advance_chead N B (chead q) (sint (ucast (version (resv b)) :: 32 word)) q of
          Inl e \<Rightarrow> Inl e
        | Inr (ok, q') \<Rightarrow> if ok then dequeue fuel N B t q' else Inr (False, t, q'))"
  using assms
  by (simp add: Let_def reserve_entry_eq consume_entry_def Field_plus_1 not_le del: reserve_entry.simps)

lemma advance_phead_eq:
  assumes "valid_params N B" "length (blocks q) = B"
  shows "advance_phead N B ph q =
     (let j = (unat (index ph) + 1) mod B; nb = blocks q ! j;
          f = \<lparr>version = version ph + 1, index = 0\<rparr> in
      if reuse_blocked N B ph nb
      then Inr (if index (resv nb) = index (cons nb) then NO_ENTRY else NOT_AVAILABLE, q)
      else Inr (SUCCESS,
        q\<lparr>blocks := (blocks q)[j := nb\<lparr>alloc := raise_to f (alloc nb),
                                         comm := raise_to f (comm nb)\<rparr>],
          phead := next_head N B ph\<rparr>))"
proof -
  have B: "0 < B" and NE: "0 < NE N B" using assms NE_pos by (auto simp: valid_params_def)
  then have j: "(unat (index ph) + 1) mod B < length (blocks q)" using assms by simp
  show ?thesis
    using j NE
    by (simp add: advance_phead_def Let_def next_head_def Field_ctor_succ Field_plus_1
        raise_to_def reuse_blocked_def)
qed

lemma advance_chead_eq:
  assumes "valid_params N B" "length (blocks q) = B"
  shows "advance_chead N B ch vsn q =
     (let j = (unat (index ch) + 1) mod B; nb = blocks q ! j;
          f = \<lparr>version = version ch + 1, index = 0\<rparr> in
      if unat (version (comm nb)) \<noteq> unat (version ch) + 1 then Inr (False, q)
      else Inr (True,
        q\<lparr>blocks := (blocks q)[j := nb\<lparr>cons := raise_to f (cons nb),
                                         resv := raise_to f (resv nb)\<rparr>],
          chead := next_head N B ch\<rparr>))"
proof -
  have B: "0 < B" and NE: "0 < NE N B" using assms NE_pos by (auto simp: valid_params_def)
  then have j: "(unat (index ch) + 1) mod B < length (blocks q)" using assms by simp
  show ?thesis
    using j NE
    by (simp add: advance_chead_def Let_def next_head_def Field_ctor_succ Field_plus_1
        raise_to_def)
qed

section \<open>The invariant of a block\<close>

lemma Field_le_refl [simp]: "Field_le f f"
  by (simp add: Field_le_def)

lemma Field_le_trans: "Field_le f g \<Longrightarrow> Field_le g h \<Longrightarrow> Field_le f h"
  by (auto simp: Field_le_def)

lemma Field_le_same_version: "Field_le f g \<Longrightarrow> version g = version f \<Longrightarrow> index f \<le> index g"
  by (auto simp: Field_le_def)

lemma block_advances_refl [simp]: "block_advances b b"
  by (simp add: block_advances_def)

lemma block_advances_trans:
  "block_advances a b \<Longrightarrow> block_advances b c \<Longrightarrow> block_advances a c"
  unfolding block_advances_def by (blast intro: Field_le_trans)

lemma queue_advances_refl [simp]: "queue_advances q q"
  by (simp add: queue_advances_def list_all2_refl)

lemma queue_advances_trans:
  "queue_advances a b \<Longrightarrow> queue_advances b c \<Longrightarrow> queue_advances a c"
  unfolding queue_advances_def
  by (erule (1) list_all2_trans [rotated]) (rule block_advances_trans)

lemma queue_advances_update:
  assumes "i < length (blocks q)" "block_advances (blocks q ! i) b'"
  shows "queue_advances q (q\<lparr>blocks := (blocks q)[i := b'], phead := h\<rparr>)"
    and "queue_advances q (q\<lparr>blocks := (blocks q)[i := b'], chead := h\<rparr>)"
    and "queue_advances q (q\<lparr>blocks := (blocks q)[i := b']\<rparr>)"
  using assms
  by (auto simp: queue_advances_def list_all2_conv_all_nth nth_list_update)

lemma queue_advances_nth:
  assumes "queue_advances q q'" "i < length (blocks q)"
  shows "block_advances (blocks q ! i) (blocks q' ! i)"
  using assms by (simp add: queue_advances_def list_all2_conv_all_nth)

lemma queue_inv_update:
  assumes "queue_inv N B q" "block_inv N B b'"
  shows "queue_inv N B (q\<lparr>blocks := (blocks q)[i := b'], phead := h\<rparr>)"
    and "queue_inv N B (q\<lparr>blocks := (blocks q)[i := b'], chead := h\<rparr>)"
    and "queue_inv N B (q\<lparr>blocks := (blocks q)[i := b']\<rparr>)"
  using assms set_update_subset_insert [of "blocks q" i b']
  by (auto simp: queue_inv_def list_all_iff)

lemma block_invD:
  assumes "block_inv N B b"
  shows "alloc b = comm b" and "comm b = alloc b" and "resv b = cons b" and "cons b = resv b"
    and "unat (index (alloc b)) \<le> NE N B" and "unat (index (resv b)) \<le> NE N B"
    and "Field_le (resv b) (comm b)" and "length (data b) = NE N B"
  using assms by (auto simp: block_inv_def)

lemma queue_inv_nth: "queue_inv N B q \<Longrightarrow> i < B \<Longrightarrow> block_inv N B (blocks q ! i)"
  by (simp add: queue_inv_def list_all_length)

lemma unat_index_Suc:
  fixes x :: "20 word"
  assumes "unat x < n" "n < 2 ^ 20"
  shows "unat (x + 1) = Suc (unat x)"
  using assms by (simp add: unat_word_ariths)

lemma index_le_Suc:
  fixes x :: "20 word"
  assumes "unat x < n" "n < 2 ^ 20"
  shows "x \<le> x + 1"
  using unat_index_Suc [OF assms] by (simp add: word_le_nat_alt)

lemma produce_block:
  fixes t :: 'a
  assumes v: "valid_params N B" and inv: "block_inv N B b" and p: "unat (index (alloc b)) < NE N B"
  defines "b' \<equiv> b\<lparr>alloc := (alloc b)\<lparr>index := index (alloc b) + 1\<rparr>,
                  data := (data b)[unat (index (alloc b)) := t],
                  comm := (comm b)\<lparr>index := index (comm b) + 1\<rparr>\<rparr>"
  shows "block_inv N B b'" and "block_advances b b'"
proof -
  have n: "NE N B < 2 ^ 20" using v by (simp add: valid_params_def)
  note s = unat_index_Suc [OF p n] and l = index_le_Suc [OF p n]
  note ac = block_invD(2) [OF inv]
  have le: "Field_le (resv b) (alloc b)" using block_invD(7) [OF inv] by (simp add: ac)
  have up: "Field_le (alloc b) ((alloc b)\<lparr>index := index (alloc b) + 1\<rparr>)"
    using l by (simp add: Field_le_def)
  have "unat (index (alloc b) + 1) \<le> NE N B" using s p by simp
  moreover note Field_le_trans [OF le up]
  moreover have "resv b = cons b" "unat (index (resv b)) \<le> NE N B" "length (data b) = NE N B"
    by (rule block_invD [OF inv])+
  ultimately show "block_inv N B b'"
    unfolding block_inv_def b'_def by (simp add: ac)
  show "block_advances b b'"
    using up unfolding block_advances_def b'_def by (simp add: ac)
qed

lemma consume_block:
  fixes z :: 'a
  assumes v: "valid_params N B" and inv: "block_inv N B b" and p: "unat (index (resv b)) < NE N B"
    and ne: "index (resv b) \<noteq> index (comm b)"
  defines "b' \<equiv> b\<lparr>resv := (resv b)\<lparr>index := index (resv b) + 1\<rparr>,
                  data := (data b)[unat (index (resv b)) := z],
                  cons := (cons b)\<lparr>index := index (cons b) + 1\<rparr>\<rparr>"
  shows "block_inv N B b'" and "block_advances b b'"
proof -
  have n: "NE N B < 2 ^ 20" using v by (simp add: valid_params_def)
  note s = unat_index_Suc [OF p n] and l = index_le_Suc [OF p n]
  note rc = block_invD(4) [OF inv]
  note le = block_invD(7) [OF inv]
  have "index (resv b) + 1 \<le> index (comm b)"
    if "version (resv b) = version (comm b)"
  proof -
    from le that have "index (resv b) \<le> index (comm b)"
      by (simp add: Field_le_def)
    with ne have "unat (index (resv b)) < unat (index (comm b))"
      by (simp add: word_le_nat_alt word_unat_eq_iff)
    with s show ?thesis by (simp add: word_le_nat_alt)
  qed
  with le have "Field_le ((resv b)\<lparr>index := index (resv b) + 1\<rparr>) (comm b)"
    by (simp add: Field_le_def) blast
  moreover have "unat (index (resv b) + 1) \<le> NE N B" using s p by simp
  moreover have "alloc b = comm b" "unat (index (alloc b)) \<le> NE N B" "length (data b) = NE N B"
    by (rule block_invD [OF inv])+
  ultimately show "block_inv N B b'"
    unfolding block_inv_def b'_def by (simp add: rc)
  have "Field_le (resv b) ((resv b)\<lparr>index := index (resv b) + 1\<rparr>)"
    using l by (simp add: Field_le_def)
  then show "block_advances b b'"
    unfolding block_advances_def b'_def by (simp add: rc)
qed

lemma raise_producer_block:
  fixes v :: "44 word"
  assumes inv: "block_inv N B nb"
  defines "f \<equiv> \<lparr>version = v, index = 0\<rparr>"
  defines "nb' \<equiv> nb\<lparr>alloc := raise_to f (alloc nb), comm := raise_to f (comm nb)\<rparr>"
  shows "block_inv N B nb'" and "block_advances nb nb'"
  using inv unfolding block_inv_def block_advances_def nb'_def f_def Field_le_def raise_to_def
  by auto

lemma version_eq_Suc:
  fixes c v0 :: "44 word"
  assumes "unat c = unat v0 + 1"
  shows "c = v0 + 1"
proof -
  have "unat v0 + 1 < 2 ^ 44"
    using assms unsigned_less [of c, where 'a = nat] by simp
  then have "unat (v0 + 1) = unat v0 + 1"
    by (simp add: unat_word_ariths)
  with assms show ?thesis by (simp add: word_unat_eq_iff)
qed

lemma raise_consumer_block:
  fixes v0 :: "44 word"
  assumes inv: "block_inv N B nb" and c: "unat (version (comm nb)) = unat v0 + 1"
  defines "f \<equiv> \<lparr>version = v0 + 1, index = 0\<rparr>"
  defines "nb' \<equiv> nb\<lparr>cons := raise_to f (cons nb), resv := raise_to f (resv nb)\<rparr>"
  shows "block_inv N B nb'" and "block_advances nb nb'"
proof -
  have "version (comm nb) = v0 + 1"
    using c by (rule version_eq_Suc)
  then show "block_inv N B nb'" and "block_advances nb nb'"
    using inv unfolding block_inv_def block_advances_def nb'_def f_def Field_le_def raise_to_def
    by auto
qed

lemma advance_phead_inv:
  assumes v: "valid_params N B" and inv: "queue_inv N B q"
    and r: "advance_phead N B ph q = Inr (ret, q')"
  shows "queue_inv N B q' \<and> queue_advances q q' \<and> chead q' = chead q \<and>
         (ret \<noteq> SUCCESS \<longrightarrow> q' = q)"
proof -
  have len: "length (blocks q) = B" using inv by (simp add: queue_inv_def)
  have B: "0 < B" using v by (simp add: valid_params_def)
  let ?j = "(unat (index ph) + 1) mod B"
  let ?nb = "blocks q ! ?j"
  have j: "?j < B" using B by simp
  then have jl: "?j < length (blocks q)" using len by simp
  note nb = queue_inv_nth [OF inv j]
  show ?thesis
  proof (cases "reuse_blocked N B ph ?nb")
    case True
    with r inv show ?thesis
      unfolding advance_phead_eq [OF v len] by (auto simp: Let_def)
  next
    case False
    let ?f = "\<lparr>version = version ph + 1, index = 0\<rparr>"
    let ?nb' = "?nb\<lparr>alloc := raise_to ?f (alloc ?nb), comm := raise_to ?f (comm ?nb)\<rparr>"
    from r False have q': "q' = q\<lparr>blocks := (blocks q)[?j := ?nb'], phead := next_head N B ph\<rparr>"
      and ret: "ret = SUCCESS"
      unfolding advance_phead_eq [OF v len] by (simp_all add: Let_def)
    note rb = raise_producer_block [OF nb, of "version ph + 1"]
    show ?thesis
      unfolding q'
      using ret queue_inv_update(1) [OF inv rb(1)] queue_advances_update(1) [OF jl rb(2)]
      by simp
  qed
qed

lemma advance_chead_inv:
  assumes v: "valid_params N B" and inv: "queue_inv N B q"
    and r: "advance_chead N B ch vsn q = Inr (ok, q')"
  shows "queue_inv N B q' \<and> queue_advances q q' \<and> phead q' = phead q \<and>
         (\<not> ok \<longrightarrow> q' = q)"
proof -
  have len: "length (blocks q) = B" using inv by (simp add: queue_inv_def)
  have B: "0 < B" using v by (simp add: valid_params_def)
  let ?j = "(unat (index ch) + 1) mod B"
  let ?nb = "blocks q ! ?j"
  have j: "?j < B" using B by simp
  then have jl: "?j < length (blocks q)" using len by simp
  note nb = queue_inv_nth [OF inv j]
  show ?thesis
  proof (cases "unat (version (comm ?nb)) = unat (version ch) + 1")
    case True
    let ?f = "\<lparr>version = version ch + 1, index = 0\<rparr>"
    let ?nb' = "?nb\<lparr>cons := raise_to ?f (cons ?nb), resv := raise_to ?f (resv ?nb)\<rparr>"
    from r True have q': "q' = q\<lparr>blocks := (blocks q)[?j := ?nb'], chead := next_head N B ch\<rparr>"
      and ok: "ok"
      unfolding advance_chead_eq [OF v len] by (simp_all add: Let_def)
    note rb = raise_consumer_block [OF nb True]
    show ?thesis
      unfolding q'
      using ok queue_inv_update(2) [OF inv rb(1)] queue_advances_update(2) [OF jl rb(2)]
      by simp
  next
    case False
    with r inv show ?thesis
      unfolding advance_chead_eq [OF v len] by (auto simp: Let_def)
  qed
qed

lemma enqueue_inv:
  assumes v: "valid_params N B"
  shows "queue_inv N B q \<Longrightarrow> enqueue fuel N B t q = Inr (ok, q') \<Longrightarrow>
         queue_inv N B q' \<and> queue_advances q q'"
proof (induction fuel arbitrary: q)
  case 0
  then show ?case by simp
next
  case (Suc fuel)
  note inv = Suc.prems(1)
  have len: "length (blocks q) = B" using inv by (simp add: queue_inv_def)
  let ?i = "unat (index (phead q))"
  have i: "?i < length (blocks q)"
    using Suc.prems(2) by (auto simp: Let_def split: if_splits)
  then have iB: "?i < B" using len by simp
  note b = queue_inv_nth [OF inv iB]
  show ?case
  proof (cases "unat (index (alloc (blocks q ! ?i))) < NE N B")
    case True
    note produce_block [OF v b True, of t]
    with Suc.prems(2) inv i True show ?thesis
      unfolding enqueue_eq [OF i]
      by (auto simp: Let_def queue_inv_update queue_advances_update split: if_splits)
  next
    case False
    from Suc.prems(2) False obtain ret q1 where
      adv: "advance_phead N B (phead q) q = Inr (ret, q1)"
      and rest: "(if ret = SUCCESS then enqueue fuel N B t q1 else Inr (False, q1)) = Inr (ok, q')"
      unfolding enqueue_eq [OF i] by (auto simp: Let_def split: sum.splits)
    note a = advance_phead_inv [OF v inv adv]
    show ?thesis
    proof (cases "ret = SUCCESS")
      case True
      with rest have "enqueue fuel N B t q1 = Inr (ok, q')" by simp
      from Suc.IH [OF _ this] a show ?thesis
        by (blast intro: queue_advances_trans)
    next
      case False
      with rest a show ?thesis by auto
    qed
  qed
qed

lemma dequeue_inv:
  assumes v: "valid_params N B"
  shows "queue_inv N B q \<Longrightarrow> dequeue fuel N B t q = Inr (ok, x, q') \<Longrightarrow>
         queue_inv N B q' \<and> queue_advances q q'"
proof (induction fuel arbitrary: q)
  case 0
  then show ?case by simp
next
  case (Suc fuel)
  note inv = Suc.prems(1)
  have len: "length (blocks q) = B" using inv by (simp add: queue_inv_def)
  let ?i = "unat (index (chead q))"
  let ?b = "blocks q ! ?i"
  have i: "?i < length (blocks q)"
    using Suc.prems(2) by (auto simp: Let_def split: if_splits simp del: reserve_entry.simps)
  then have iB: "?i < B" using len by simp
  note b = queue_inv_nth [OF inv iB]
  show ?case
  proof (cases "unat (index (resv ?b)) < NE N B")
    case True
    show ?thesis
    proof (cases "index (resv ?b) = index (comm ?b) \<or>
           (unat (index (comm ?b)) \<noteq> NE N B \<and> index (alloc ?b) \<noteq> index (comm ?b))")
      case stall: True
      with Suc.prems(2) True inv show ?thesis
        unfolding dequeue_eq [OF i] by (auto simp: Let_def)
    next
      case False
      then have ne: "index (resv ?b) \<noteq> index (comm ?b)" by simp
      note consume_block [OF v b True ne, of 0]
      with Suc.prems(2) True False inv i show ?thesis
        unfolding dequeue_eq [OF i]
        by (auto simp: Let_def queue_inv_update queue_advances_update split: if_splits)
    qed
  next
    case False
    from Suc.prems(2) False obtain ret q1 where
      adv: "advance_chead N B (chead q) (sint (ucast (version (resv ?b)) :: 32 word)) q = Inr (ret, q1)"
      and rest: "(if ret then dequeue fuel N B t q1 else Inr (False, t, q1)) = Inr (ok, x, q')"
      unfolding dequeue_eq [OF i] by (auto simp: Let_def split: sum.splits)
    note a = advance_chead_inv [OF v inv adv]
    show ?thesis
    proof (cases ret)
      case True
      with rest have "dequeue fuel N B t q1 = Inr (ok, x, q')" by simp
      from Suc.IH [OF _ this] a show ?thesis
        by (blast intro: queue_advances_trans)
    next
      case False
      with rest a show ?thesis by auto
    qed
  qed
qed

lemma perform_inv:
  assumes "valid_params N B" "queue_inv N B q" "perform fuel N B c q = Inr (out, q')"
  shows "queue_inv N B q' \<and> queue_advances q q'"
proof (cases c)
  case (Enqueue t)
  with assms(3) obtain ok where "enqueue fuel N B t q = Inr (ok, q')"
    by (auto split: sum.splits)
  from enqueue_inv [OF assms(1,2) this] show ?thesis .
next
  case (Dequeue t)
  with assms(3) obtain ok x where "dequeue fuel N B t q = Inr (ok, x, q')"
    by (auto split: sum.splits)
  from dequeue_inv [OF assms(1,2) this] show ?thesis .
qed

lemma run_inv:
  assumes v: "valid_params N B"
  shows "queue_inv N B q \<Longrightarrow> run fuel N B cs q = Inr (outs, q') \<Longrightarrow>
         queue_inv N B q' \<and> queue_advances q q'"
proof (induction cs arbitrary: q outs)
  case Nil
  then show ?case by simp
next
  case (Cons c cs)
  from Cons.prems(2) obtain out q1 outs1 where
    p: "perform fuel N B c q = Inr (out, q1)" and r: "run fuel N B cs q1 = Inr (outs1, q')"
    by (auto split: sum.splits)
  note a = perform_inv [OF v Cons.prems(1) p]
  from Cons.IH [OF _ r] a show ?case
    by (blast intro: queue_advances_trans)
qed

lemma Queue_ctor_inv:
  assumes v: "valid_params N B"
  shows "queue_inv N B (Queue_ctor N B mem)"
proof -
  have n: "NE N B < 2 ^ 20" using v by (simp add: valid_params_def)
  then have "unat (of_nat (NE N B) :: 20 word) = NE N B"
    by (simp add: unat_of_nat)
  then show ?thesis
    by (auto simp: queue_inv_def Queue_ctor_def list_all_iff Block_init_def block_inv_def
        Field_ctor_def Let_def)
qed

section \<open>Slot contents across a consumer advance\<close>

lemma map_data_update:
  assumes "data b' = data (xs ! j)"
  shows "map data (xs[j := b']) = map data xs"
proof (cases "j < length xs")
  case True
  with assms show ?thesis by (simp add: map_update list_update_same_conv)
next
  case False
  then show ?thesis by (simp add: list_update_beyond)
qed

lemma advance_chead_data:
  assumes v: "valid_params N B" and len: "length (blocks q) = B"
    and r: "advance_chead N B ch vsn q = Inr (ok, q')"
  shows "length (blocks q') = B \<and> map data (blocks q') = map data (blocks q)"
proof (cases "unat (version (comm (blocks q ! ((unat (index ch) + 1) mod B)))) = unat (version ch) + 1")
  case True
  with r len show ?thesis
    unfolding advance_chead_eq [OF v len] Let_def
    by (auto intro!: map_data_update)
next
  case False
  with r len show ?thesis
    unfolding advance_chead_eq [OF v len] Let_def by auto
qed

lemma same_data_nth:
  assumes "map data xs = map data ys" "length xs = n" "i < n"
  shows "data (xs ! i) = data (ys ! i)"
proof -
  have "length ys = n" using assms(1,2) by (metis length_map)
  have "data (xs ! i) = map data xs ! i" using assms(2,3) by simp
  also have "\<dots> = map data ys ! i" by (simp only: assms(1))
  also have "\<dots> = data (ys ! i)" using \<open>length ys = n\<close> assms(3) by simp
  finally show ?thesis .
qed

lemma wf_queue_data:
  assumes "wf_queue N B q" "length (blocks qm) = B" "map data (blocks qm) = map data (blocks q)"
    "i < B"
  shows "length (data (blocks qm ! i)) = NE N B"
proof -
  have "data (blocks qm ! i) = data (blocks q ! i)"
    using assms by (intro same_data_nth)
  then show ?thesis using assms by (simp add: wf_queue_def list_all_length)
qed

lemma dequeue_last_iteration:
  assumes v: "valid_params N B"
  shows "length (blocks q) = B \<Longrightarrow> dequeue fuel N B t q = Inr (True, x, q') \<Longrightarrow>
     \<exists>qm. map data (blocks qm) = map data (blocks q) \<and> length (blocks qm) = B \<and>
       unat (index (chead qm)) < B \<and>
       unat (index (resv (blocks qm ! unat (index (chead qm))))) < NE N B \<and>
       dequeue (Suc 0) N B t qm = Inr (True, x, q')"
proof (induction fuel arbitrary: q)
  case 0
  then show ?case by simp
next
  case (Suc fuel)
  note len = Suc.prems(1)
  let ?i = "unat (index (chead q))"
  let ?b = "blocks q ! ?i"
  have i: "?i < length (blocks q)"
    using Suc.prems(2) by (auto simp: Let_def split: if_splits simp del: reserve_entry.simps)
  show ?case
  proof (cases "unat (index (resv ?b)) < NE N B")
    case True
    with Suc.prems(2) have "dequeue (Suc 0) N B t q = Inr (True, x, q')"
      unfolding dequeue_eq [OF i] by (simp add: Let_def)
    with True i len show ?thesis by (intro exI [of _ q]) simp
  next
    case False
    from Suc.prems(2) False obtain ret q1 where
      adv: "advance_chead N B (chead q) (sint (ucast (version (resv ?b)) :: 32 word)) q = Inr (ret, q1)"
      and rest: "(if ret then dequeue fuel N B t q1 else Inr (False, t, q1)) = Inr (True, x, q')"
      unfolding dequeue_eq [OF i] by (auto simp: Let_def split: sum.splits)
    note a = advance_chead_data [OF v len adv]
    from rest have "dequeue fuel N B t q1 = Inr (True, x, q')"
      by (simp split: if_splits)
    from Suc.IH [OF _ this] a show ?thesis by auto
  qed
qed

lemma valid_1_1: "valid_params 1 1"
  by (simp add: valid_params_def NE_def)

section \<open>The block-boundary hand-off\<close>

text \<open>
  Claim C4. \<^verbatim>\<open>advance_phead(ph)\<close> looks at the block \<open>nb\<close> at ring index
  \<open>(ph.index + 1) mod B\<close>. It reports the block as not reusable exactly when
  \<open>nb.cons.version < ph.version\<close>, or the versions are equal and \<open>nb.cons.index \<noteq> NE\<close>;
  it then returns \<open>NO_ENTRY\<close> if \<open>nb.resv.index = nb.cons.index\<close> and \<open>NOT_AVAILABLE\<close>
  otherwise, changes nothing, and \<^verbatim>\<open>enqueue\<close> returns false. Otherwise it raises
  \<open>nb.alloc\<close> and \<open>nb.comm\<close> to \<open>(ph.version + 1, 0)\<close>, leaving a cursor alone whose
  version is already at least as large, stores the next head and returns \<open>SUCCESS\<close>.
  The sum \<open>ph.version + 1\<close> is the one of the 44 bit field.
\<close>

theorem advance_phead_gate:
  assumes "valid_params N B" and "length (blocks q) = B"
  shows "let j = (unat (index ph) + 1) mod B;
             nb = blocks q ! j;
             f = \<lparr>version = version ph + 1, index = 0\<rparr>
         in advance_phead N B ph q =
              (if reuse_blocked N B ph nb
               then Inr (if index (resv nb) = index (cons nb) then NO_ENTRY else NOT_AVAILABLE, q)
               else Inr (SUCCESS,
                 q\<lparr>blocks := (blocks q)[j := nb
                      \<lparr>alloc := if version (alloc nb) < version f then f else alloc nb,
                       comm := if version (comm nb) < version f then f else comm nb\<rparr>],
                   phead := next_head N B ph\<rparr>))
            \<and> (reuse_blocked N B ph nb \<and> phead q = ph \<and> unat (index ph) < B \<and>
               NE N B \<le> unat (index (alloc (blocks q ! unat (index ph))))
               \<longrightarrow> enqueue (Suc fuel) N B t q = Inr (False, q))"
proof -
  have eq: "advance_phead N B ph q =
      (let j = (unat (index ph) + 1) mod B; nb = blocks q ! j;
           f = \<lparr>version = version ph + 1, index = 0\<rparr> in
       if reuse_blocked N B ph nb
       then Inr (if index (resv nb) = index (cons nb) then NO_ENTRY else NOT_AVAILABLE, q)
       else Inr (SUCCESS,
         q\<lparr>blocks := (blocks q)[j := nb
              \<lparr>alloc := if version (alloc nb) < version f then f else alloc nb,
               comm := if version (comm nb) < version f then f else comm nb\<rparr>],
           phead := next_head N B ph\<rparr>))"
    using advance_phead_eq [OF assms, of ph] by (simp add: raise_to_def Let_def)
  have "enqueue (Suc fuel) N B t q = Inr (False, q)"
    if "reuse_blocked N B ph (blocks q ! ((unat (index ph) + 1) mod B))"
      and "phead q = ph" and "unat (index ph) < B"
      and "NE N B \<le> unat (index (alloc (blocks q ! unat (index ph))))"
  proof -
    have "unat (index (phead q)) < length (blocks q)" using that assms by simp
    from enqueue_eq [OF this, of fuel N B t] that eq show ?thesis
      by (simp add: Let_def)
  qed
  with eq show ?thesis by (simp add: Let_def)
qed

text \<open>
  On the one-slot queue: after \<^verbatim>\<open>enqueue(7)\<close> the block is not drained, the advance
  reports \<open>NO_ENTRY\<close> and a second enqueue returns false; once the slot is consumed the
  advance succeeds and stamps generation 1.
\<close>

theorem advance_phead_gate_witness:
  "valid_params 1 1 \<and> length (blocks one_slot_full) = 1 \<and>
   run 1 1 1 [Enqueue 7] (Queue_ctor 1 1 (\<lambda>i j. 0)) = Inr ([Enqueued 7 True], one_slot_full) \<and>
   reuse_blocked 1 1 (Field_ctor 0 0) (blocks one_slot_full ! 0) \<and>
   advance_phead 1 1 (Field_ctor 0 0) one_slot_full = Inr (NO_ENTRY, one_slot_full) \<and>
   enqueue 1 1 1 8 one_slot_full = Inr (False, one_slot_full) \<and>
   \<not> reuse_blocked 1 1 (Field_ctor 0 0) (blocks one_slot_drained ! 0) \<and>
   advance_phead 1 1 (Field_ctor 0 0) one_slot_drained =
     Inr (SUCCESS,
       \<lparr>blocks = [\<lparr>alloc = Field_ctor 1 0, comm = Field_ctor 1 0,
                   resv = Field_ctor 0 1, cons = Field_ctor 0 1, data = [0]\<rparr>],
        phead = Field_ctor 1 0, chead = Field_ctor 0 0\<rparr>)"
proof -
  have r: "run 1 1 1 [Enqueue 7] (Queue_ctor 1 1 (\<lambda>i j. 0)) = Inr ([Enqueued 7 True], one_slot_full)"
    by code_simp
  have k1: "reuse_blocked 1 1 (Field_ctor 0 0) (blocks one_slot_full ! 0)" by code_simp
  have k2: "\<not> reuse_blocked 1 1 (Field_ctor 0 0) (blocks one_slot_drained ! 0)" by code_simp
  have l1: "length (blocks one_slot_full) = 1" and l2: "length (blocks one_slot_drained) = 1"
    by (simp_all add: one_slot_full_def one_slot_drained_def)
  have "advance_phead 1 1 (Field_ctor 0 0) one_slot_full = Inr (NO_ENTRY, one_slot_full) \<and>
      enqueue 1 1 1 8 one_slot_full = Inr (False, one_slot_full)"
    using advance_phead_gate [OF valid_1_1 l1, of "Field_ctor 0 0" 0 8] k1
    by (simp add: Let_def Field_ctor_def NE_def one_slot_full_def)
  moreover have "advance_phead 1 1 (Field_ctor 0 0) one_slot_drained =
     Inr (SUCCESS,
       \<lparr>blocks = [\<lparr>alloc = Field_ctor 1 0, comm = Field_ctor 1 0,
                   resv = Field_ctor 0 1, cons = Field_ctor 0 1, data = [0]\<rparr>],
        phead = Field_ctor 1 0, chead = Field_ctor 0 0\<rparr>)"
    using advance_phead_gate [OF valid_1_1 l2, of "Field_ctor 0 0" 0 8] k2
    by (simp add: Let_def Field_ctor_def NE_def next_head_def one_slot_drained_def)
  ultimately show ?thesis
    using valid_1_1 r k1 k2 l1 by (simp only: simp_thms)
qed

text \<open>
  The consumer's counterpart, on every state with \<open>B\<close> blocks. \<^verbatim>\<open>advance_chead(ch)\<close>
  looks at the block \<open>nb\<close> at ring index \<open>(ch.index + 1) mod B\<close> and succeeds if and only
  if \<open>nb.comm.version = ch.version + 1\<close> (a sum of \<^verbatim>\<open>uint64_t\<close>, which a version never
  reaches once \<open>ch.version\<close> is the largest 44 bit value). On success it raises \<open>nb.cons\<close>
  and \<open>nb.resv\<close> to \<open>(ch.version + 1, 0)\<close>, leaving a cursor alone whose version is already
  at least as large, and returns true. When it fails nothing changes and \<^verbatim>\<open>dequeue\<close>
  returns false. The head it stores on success is \<open>ch + 1\<close> wrapped against \<open>NE\<close>, which is
  the index of \<open>nb\<close> only when \<open>NE = B\<close>: see \<open>The head wraps against NE instead of B\<close>.
\<close>

lemma advance_chead_result:
  assumes "valid_params N B" and "length (blocks q) = B"
  shows "let j = (unat (index ch) + 1) mod B;
             nb = blocks q ! j;
             f = \<lparr>version = version ch + 1, index = 0\<rparr>
         in advance_chead N B ch vsn q =
              (if unat (version (comm nb)) = unat (version ch) + 1
               then Inr (True,
                 q\<lparr>blocks := (blocks q)[j := nb
                      \<lparr>cons := if version (cons nb) < version f then f else cons nb,
                       resv := if version (resv nb) < version f then f else resv nb\<rparr>],
                   chead := next_head N B ch\<rparr>)
               else Inr (False, q))
            \<and> (unat (version (comm nb)) \<noteq> unat (version ch) + 1 \<and> chead q = ch \<and>
               unat (index ch) < B \<and>
               NE N B \<le> unat (index (resv (blocks q ! unat (index ch))))
               \<longrightarrow> dequeue (Suc fuel) N B t q = Inr (False, t, q))"
proof -
  note eq = advance_chead_eq [OF assms, of ch, unfolded raise_to_def]
  have "dequeue (Suc fuel) N B t q = Inr (False, t, q)"
    if "unat (version (comm (blocks q ! ((unat (index ch) + 1) mod B)))) \<noteq> unat (version ch) + 1"
      and "chead q = ch" and "unat (index ch) < B"
      and "NE N B \<le> unat (index (resv (blocks q ! unat (index ch))))"
  proof -
    have "unat (index (chead q)) < length (blocks q)" using that assms by simp
    from dequeue_eq [OF this, of fuel N B t] that eq show ?thesis
      by (simp add: Let_def)
  qed
  with eq show ?thesis by (simp add: Let_def)
qed

text \<open>
  On the one-slot queue: once the only item is consumed the block still carries
  generation 0, the advance fails and \<^verbatim>\<open>dequeue\<close> returns false; after the producer has
  stamped generation 1 the advance succeeds.
\<close>

lemma advance_chead_result_one_slot:
  "valid_params 1 1 \<and> length (blocks one_slot_drained) = 1 \<and>
   run 1 1 1 [Enqueue 7, Dequeue 0] (Queue_ctor 1 1 (\<lambda>i j. 0)) =
     Inr ([Enqueued 7 True, Dequeued 7 True], one_slot_drained) \<and>
   advance_chead 1 1 (Field_ctor 0 0) 0 one_slot_drained = Inr (False, one_slot_drained) \<and>
   dequeue 1 1 1 5 one_slot_drained = Inr (False, 5, one_slot_drained) \<and>
   run 2 1 1 [Enqueue 7, Dequeue 0, Enqueue 8] (Queue_ctor 1 1 (\<lambda>i j. 0)) =
     Inr ([Enqueued 7 True, Dequeued 7 True, Enqueued 8 True], one_slot_second) \<and>
   advance_chead 1 1 (Field_ctor 0 0) 0 one_slot_second =
     Inr (True,
       \<lparr>blocks = [\<lparr>alloc = Field_ctor 1 1, comm = Field_ctor 1 1,
                   resv = Field_ctor 1 0, cons = Field_ctor 1 0, data = [8]\<rparr>],
        phead = Field_ctor 1 0, chead = Field_ctor 1 0\<rparr>)"
proof -
  have r1: "run 1 1 1 [Enqueue 7, Dequeue 0] (Queue_ctor 1 1 (\<lambda>i j. 0)) =
     Inr ([Enqueued 7 True, Dequeued 7 True], one_slot_drained)"
    by code_simp
  have r2: "run 2 1 1 [Enqueue 7, Dequeue 0, Enqueue 8] (Queue_ctor 1 1 (\<lambda>i j. 0)) =
     Inr ([Enqueued 7 True, Dequeued 7 True, Enqueued 8 True], one_slot_second)"
    by code_simp
  have l1: "length (blocks one_slot_drained) = 1" and l2: "length (blocks one_slot_second) = 1"
    by (simp_all add: one_slot_drained_def one_slot_second_def)
  have "advance_chead 1 1 (Field_ctor 0 0) 0 one_slot_drained = Inr (False, one_slot_drained) \<and>
      dequeue 1 1 1 5 one_slot_drained = Inr (False, 5, one_slot_drained)"
    using advance_chead_result [OF valid_1_1 l1, of "Field_ctor 0 0" 0 0 5]
    by (simp add: Let_def Field_ctor_def NE_def one_slot_drained_def)
  moreover have "advance_chead 1 1 (Field_ctor 0 0) 0 one_slot_second =
     Inr (True,
       \<lparr>blocks = [\<lparr>alloc = Field_ctor 1 1, comm = Field_ctor 1 1,
                   resv = Field_ctor 1 0, cons = Field_ctor 1 0, data = [8]\<rparr>],
        phead = Field_ctor 1 0, chead = Field_ctor 1 0\<rparr>)"
    using advance_chead_result [OF valid_1_1 l2, of "Field_ctor 0 0" 0 0 5]
    by (simp add: Let_def Field_ctor_def NE_def next_head_def one_slot_second_def)
  ultimately show ?thesis
    using valid_1_1 r1 r2 l1 by (simp only: simp_thms)
qed

section \<open>The reserve step\<close>

text \<open>
  Claim C6. In the reserve step of \<^verbatim>\<open>dequeue\<close>, with \<open>r = b.resv\<close>, \<open>c = b.comm\<close> and
  \<open>r.index < NE\<close>: the result is \<open>NO_ENTRY\<close> exactly when \<open>r.index = c.index\<close>; it is
  \<open>NOT_AVAILABLE\<close> exactly when \<open>r.index \<noteq> c.index\<close>, \<open>c.index \<noteq> NE\<close> and
  \<open>b.alloc.index \<noteq> c.index\<close>; and \<^verbatim>\<open>dequeue\<close> turns both into a false return in
  the same loop iteration, leaving the queue and the caller's variable as they were.
\<close>

theorem reserve_entry_outcomes:
  assumes "unat (index (resv b)) < NE N B"
  shows "\<exists>st b'. reserve_entry (Suc fuel) N B b = Inr ((st, resv b), b') \<and>
     (st = NO_ENTRY \<longleftrightarrow> index (resv b) = index (comm b)) \<and>
     (st = NOT_AVAILABLE \<longleftrightarrow>
        index (resv b) \<noteq> index (comm b) \<and> unat (index (comm b)) \<noteq> NE N B \<and>
        index (alloc b) \<noteq> index (comm b)) \<and>
     (\<forall>q t. (st = NO_ENTRY \<or> st = NOT_AVAILABLE) \<and>
        unat (index (chead q)) < length (blocks q) \<and>
        blocks q ! unat (index (chead q)) = b
        \<longrightarrow> dequeue (Suc fuel) N B t q = Inr (False, t, q))"
proof -
  have deq: "dequeue (Suc fuel) N B t q = Inr (False, t, q)"
    if "index (resv b) = index (comm b) \<or>
        (unat (index (comm b)) \<noteq> NE N B \<and> index (alloc b) \<noteq> index (comm b))"
      and "unat (index (chead q)) < length (blocks q)"
      and "blocks q ! unat (index (chead q)) = b" for q and t :: 'a
    using dequeue_eq [OF that(2), of fuel N B t] that assms by (auto simp: Let_def)
  show ?thesis
  proof (cases "index (resv b) = index (comm b)")
    case True
    with assms deq show ?thesis by (simp add: reserve_entry_eq del: reserve_entry.simps)
  next
    case ne: False
    show ?thesis
    proof (cases "unat (index (comm b)) \<noteq> NE N B \<and> index (alloc b) \<noteq> index (comm b)")
      case True
      with ne assms deq show ?thesis by (simp add: reserve_entry_eq del: reserve_entry.simps)
    next
      case False
      with ne assms show ?thesis by (auto simp add: reserve_entry_eq simp del: reserve_entry.simps)
    qed
  qed
qed

text \<open>
  On a fresh one-slot queue nothing is committed: \<open>NO_ENTRY\<close>, and \<^verbatim>\<open>dequeue\<close> returns
  false at once. On a block with a write in flight: \<open>NOT_AVAILABLE\<close>.
\<close>

theorem reserve_entry_outcomes_witness:
  "unat (index (resv (blocks (Queue_ctor 1 1 (\<lambda>i j. 0::nat)) ! 0))) < NE 1 1 \<and>
   (\<exists>b'. reserve_entry 1 1 1 (blocks (Queue_ctor 1 1 (\<lambda>i j. 0::nat)) ! 0) =
      Inr ((NO_ENTRY, Field_ctor 0 0), b')) \<and>
   dequeue 1 1 1 5 (Queue_ctor 1 1 (\<lambda>i j. 0::nat)) = Inr (False, 5, Queue_ctor 1 1 (\<lambda>i j. 0)) \<and>
   unat (index (resv block_mid_write)) < NE 3 1 \<and>
   (\<exists>b'. reserve_entry 1 3 1 block_mid_write = Inr ((NOT_AVAILABLE, Field_ctor 0 0), b'))"
proof -
  let ?q = "Queue_ctor 1 1 (\<lambda>i j. 0::nat)"
  let ?b = "blocks ?q ! 0"
  have h1: "unat (index (resv ?b)) < NE 1 1"
    by (simp add: Queue_ctor_def Block_init_def Field_ctor_def NE_def Let_def)
  have h2: "unat (index (resv block_mid_write)) < NE 3 1"
    by (simp add: block_mid_write_def Field_ctor_def NE_def)
  have e1: "index (resv ?b) = index (comm ?b)" "resv ?b = Field_ctor 0 0"
    "unat (index (chead ?q)) < length (blocks ?q)" "blocks ?q ! unat (index (chead ?q)) = ?b"
    by (simp_all add: Queue_ctor_def Block_init_def Field_ctor_def NE_def Let_def)
  have e2: "index (resv block_mid_write) \<noteq> index (comm block_mid_write)"
    "unat (index (comm block_mid_write)) \<noteq> NE 3 1"
    "index (alloc block_mid_write) \<noteq> index (comm block_mid_write)"
    "resv block_mid_write = Field_ctor 0 0"
    by (simp_all add: block_mid_write_def Field_ctor_def NE_def)
  from reserve_entry_outcomes [OF h1, of 0] e1
  have "(\<exists>b'. reserve_entry 1 1 1 ?b = Inr ((NO_ENTRY, Field_ctor 0 0), b')) \<and>
      dequeue 1 1 1 5 ?q = Inr (False, 5, ?q)"
    by (metis One_nat_def)
  moreover from reserve_entry_outcomes [OF h2, of 0] e2
  have "\<exists>b'. reserve_entry 1 3 1 block_mid_write = Inr ((NOT_AVAILABLE, Field_ctor 0 0), b')"
    by (metis One_nat_def)
  ultimately show ?thesis using h1 h2 by (simp only: simp_thms)
qed

section \<open>Cursor order within a block\<close>

text \<open>
  Claim C7. For every block of the queue and every state reachable from a fresh queue
  by complete \<^verbatim>\<open>enqueue\<close>/\<^verbatim>\<open>dequeue\<close> calls, the positions of the cursors in the
  block's current generation (the generation of \<open>alloc\<close>; a cursor that still carries
  an earlier generation stands at position 0 of the current one) satisfy
  \<open>cons \<le> resv \<le> comm \<le> alloc \<le> NE\<close>, no index exceeds \<open>NE\<close>, and the four Fields are
  ordered the same way by version and index. Every further call leaves each of the four
  cursors where it is or moves it forward: no version drops, and a cursor that keeps its
  generation does not lower its index. This holds for all valid \<open>N\<close> and \<open>B\<close>.
\<close>

theorem cursor_order_invariant:
  assumes v: "valid_params N B"
    and r: "run fuel N B cs (Queue_ctor N B mem) = Inr (outs, q)"
    and i: "i < B"
  shows "let b = blocks q ! i; g = version (alloc b) in
     position_in g (cons b) \<le> position_in g (resv b) \<and>
     position_in g (resv b) \<le> position_in g (comm b) \<and>
     position_in g (comm b) \<le> position_in g (alloc b) \<and>
     position_in g (alloc b) \<le> NE N B \<and>
     unat (index (cons b)) \<le> NE N B \<and> unat (index (resv b)) \<le> NE N B \<and>
     unat (index (comm b)) \<le> NE N B \<and> unat (index (alloc b)) \<le> NE N B \<and>
     Field_le (cons b) (resv b) \<and> Field_le (resv b) (comm b) \<and> Field_le (comm b) (alloc b) \<and>
     (\<forall>fuel' c out q'. perform fuel' N B c q = Inr (out, q') \<longrightarrow>
        (let b' = blocks q' ! i in
           block_advances b b' \<and>
           (version (alloc b') = version (alloc b) \<longrightarrow> index (alloc b) \<le> index (alloc b')) \<and>
           (version (comm b') = version (comm b) \<longrightarrow> index (comm b) \<le> index (comm b')) \<and>
           (version (resv b') = version (resv b) \<longrightarrow> index (resv b) \<le> index (resv b')) \<and>
           (version (cons b') = version (cons b) \<longrightarrow> index (cons b) \<le> index (cons b'))))"
proof -
  from run_inv [OF v Queue_ctor_inv [OF v] r] have inv: "queue_inv N B q" by simp
  let ?b = "blocks q ! i"
  note b = block_invD [OF queue_inv_nth [OF inv i]]
  have len: "length (blocks q) = B" using inv by (simp add: queue_inv_def)
  have order: "position_in (version (alloc ?b)) (cons ?b) \<le> position_in (version (alloc ?b)) (resv ?b)"
    "position_in (version (alloc ?b)) (resv ?b) \<le> position_in (version (alloc ?b)) (comm ?b)"
    "position_in (version (alloc ?b)) (comm ?b) \<le> position_in (version (alloc ?b)) (alloc ?b)"
    "position_in (version (alloc ?b)) (alloc ?b) \<le> NE N B"
    using b(5,7) by (auto simp: position_in_def b(2,4) Field_le_def word_le_nat_alt)
  have bounds: "unat (index (cons ?b)) \<le> NE N B" "unat (index (resv ?b)) \<le> NE N B"
    "unat (index (comm ?b)) \<le> NE N B" "unat (index (alloc ?b)) \<le> NE N B"
    using b(5,6) by (simp_all add: b(2,4))
  have lex: "Field_le (cons ?b) (resv ?b)" "Field_le (resv ?b) (comm ?b)"
    "Field_le (comm ?b) (alloc ?b)"
    using b(7) by (simp_all add: b(2,4))
  have step: "block_advances ?b (blocks q' ! i)"
    if "perform fuel' N B c q = Inr (out, q')" for fuel' c out q'
    using perform_inv [OF v inv that] i len by (auto intro: queue_advances_nth)
  have mono: "(version (alloc b') = version (alloc ?b) \<longrightarrow> index (alloc ?b) \<le> index (alloc b')) \<and>
           (version (comm b') = version (comm ?b) \<longrightarrow> index (comm ?b) \<le> index (comm b')) \<and>
           (version (resv b') = version (resv ?b) \<longrightarrow> index (resv ?b) \<le> index (resv b')) \<and>
           (version (cons b') = version (cons ?b) \<longrightarrow> index (cons ?b) \<le> index (cons b'))"
    if "block_advances ?b b'" for b'
    using that by (auto simp: block_advances_def dest: Field_le_same_version)
  show ?thesis
    unfolding Let_def
    using order bounds lex step mono by blast
qed

text \<open>
  The second block of \<^verbatim>\<open>Queue<T, 4, 2>\<close> after three enqueues and one dequeue: the
  producer is at position 1 of generation 1 and the consumer has not entered that
  generation. A fourth enqueue moves \<open>alloc\<close> and \<open>comm\<close> from index 1 to index 2.
\<close>

theorem cursor_order_invariant_witness:
  "valid_params 4 2 \<and> (1::nat) < 2 \<and>
   run 2 4 2 [Enqueue 1, Enqueue 2, Enqueue 3, Dequeue 0] (Queue_ctor 4 2 (\<lambda>i j. 0)) =
     Inr ([Enqueued 1 True, Enqueued 2 True, Enqueued 3 True, Dequeued 1 True],
          two_blocks_three_in) \<and>
   perform 2 4 2 (Enqueue 4) two_blocks_three_in = Inr (Enqueued 4 True, two_blocks_four_in) \<and>
   position_in 1 (cons (blocks two_blocks_three_in ! 1)) = 0 \<and>
   position_in 1 (alloc (blocks two_blocks_three_in ! 1)) = 1 \<and>
   version (alloc (blocks two_blocks_four_in ! 1)) = version (alloc (blocks two_blocks_three_in ! 1)) \<and>
   (let b = blocks two_blocks_three_in ! 1; g = version (alloc b) in
      position_in g (cons b) \<le> position_in g (resv b) \<and>
      position_in g (resv b) \<le> position_in g (comm b) \<and>
      position_in g (comm b) \<le> position_in g (alloc b) \<and>
      position_in g (alloc b) \<le> NE 4 2) \<and>
   block_advances (blocks two_blocks_three_in ! 1) (blocks two_blocks_four_in ! 1) \<and>
   index (alloc (blocks two_blocks_three_in ! 1)) \<le> index (alloc (blocks two_blocks_four_in ! 1))"
proof -
  have v: "valid_params 4 2" by (simp add: valid_params_def NE_def)
  have i: "(1::nat) < 2" by simp
  have r: "run 2 4 2 [Enqueue 1, Enqueue 2, Enqueue 3, Dequeue 0] (Queue_ctor 4 2 (\<lambda>i j. 0)) =
     Inr ([Enqueued 1 True, Enqueued 2 True, Enqueued 3 True, Dequeued 1 True],
          two_blocks_three_in)"
    by code_simp
  have p: "perform 2 4 2 (Enqueue 4) two_blocks_three_in = Inr (Enqueued 4 True, two_blocks_four_in)"
    by code_simp
  have e: "position_in 1 (cons (blocks two_blocks_three_in ! 1)) = 0"
    "position_in 1 (alloc (blocks two_blocks_three_in ! 1)) = 1"
    "version (alloc (blocks two_blocks_four_in ! 1)) = version (alloc (blocks two_blocks_three_in ! 1))"
    by (simp_all add: two_blocks_three_in_def two_blocks_four_in_def position_in_def Field_ctor_def)
  note t = cursor_order_invariant [OF v r i, unfolded Let_def]
  from t have chain: "let b = blocks two_blocks_three_in ! 1; g = version (alloc b) in
      position_in g (cons b) \<le> position_in g (resv b) \<and>
      position_in g (resv b) \<le> position_in g (comm b) \<and>
      position_in g (comm b) \<le> position_in g (alloc b) \<and>
      position_in g (alloc b) \<le> NE 4 2"
    unfolding Let_def by blast
  from t p e(3) have
    "block_advances (blocks two_blocks_three_in ! 1) (blocks two_blocks_four_in ! 1) \<and>
     index (alloc (blocks two_blocks_three_in ! 1)) \<le> index (alloc (blocks two_blocks_four_in ! 1))"
    by blast
  with v i r p e chain show ?thesis by (simp only: simp_thms)
qed

section \<open>What a successful dequeue leaves in the slot\<close>

text \<open>
  Claim C8. A \<^verbatim>\<open>dequeue\<close> that returns true has, in its last loop iteration (entered
  in the state \<open>qm\<close>, which holds the same slot contents as the state at entry to the
  call), taken slot \<open>p\<close> of the block \<open>i\<close> under the consumer head: the value handed back
  is what the slot held on entry, the slot holds 0 afterwards, and the call changed
  nothing else in that iteration but \<open>resv\<close> and \<open>cons\<close> of that block, each advanced by
  one.
\<close>

theorem dequeue_clears_slot:
  assumes v: "valid_params N B" and wf: "wf_queue N B q"
    and d: "dequeue fuel N B t q = Inr (True, x, q')"
  shows "\<exists>qm. map data (blocks qm) = map data (blocks q) \<and> length (blocks qm) = B \<and>
     (let i = unat (index (chead qm)); b = blocks qm ! i; p = unat (index (resv b)) in
        i < B \<and> p < NE N B \<and> i = unat (index (chead q')) \<and>
        x = data (blocks q ! i) ! p \<and>
        data (blocks q' ! i) ! p = 0 \<and>
        q' = qm\<lparr>blocks := (blocks qm)[i := b
               \<lparr>resv := (resv b)\<lparr>index := index (resv b) + 1\<rparr>,
                data := (data b)[p := 0],
                cons := (cons b)\<lparr>index := index (cons b) + 1\<rparr>\<rparr>]\<rparr>)"
proof -
  have len: "length (blocks q) = B" using wf by (simp add: wf_queue_def)
  from dequeue_last_iteration [OF v len d] obtain qm where
    m: "map data (blocks qm) = map data (blocks q)" and l: "length (blocks qm) = B"
    and i: "unat (index (chead qm)) < B"
    and p: "unat (index (resv (blocks qm ! unat (index (chead qm))))) < NE N B"
    and one: "dequeue (Suc 0) N B t qm = Inr (True, x, q')"
    by blast
  let ?i = "unat (index (chead qm))"
  let ?b = "blocks qm ! ?i"
  let ?p = "unat (index (resv ?b))"
  have il: "?i < length (blocks qm)" using i l by simp
  have dl: "length (data ?b) = NE N B" by (rule wf_queue_data [OF wf l m i])
  have same: "data (blocks q ! ?i) = data ?b"
    by (rule same_data_nth [OF m [symmetric] len i])
  from one p dl have x: "x = data ?b ! ?p"
    and q': "q' = qm\<lparr>blocks := (blocks qm)[?i := ?b
               \<lparr>resv := (resv ?b)\<lparr>index := index (resv ?b) + 1\<rparr>,
                data := (data ?b)[?p := 0],
                cons := (cons ?b)\<lparr>index := index (cons ?b) + 1\<rparr>\<rparr>]\<rparr>"
    unfolding dequeue_eq [OF il] by (simp_all add: Let_def split: if_splits)
  have z: "data (blocks q' ! ?i) ! ?p = 0"
    unfolding q' using il p dl by simp
  have c: "?i = unat (index (chead q'))" unfolding q' by simp
  have x': "x = data (blocks q ! ?i) ! ?p" using x same by simp
  show ?thesis
    unfolding Let_def
    by (intro exI [of _ qm] conjI m l i p c x' z q')
qed

text \<open>
  On the one-slot queue holding 7: the dequeue hands back 7 and leaves 0 in the slot.
\<close>

theorem dequeue_clears_slot_witness:
  "valid_params 1 1 \<and> wf_queue 1 1 one_slot_full \<and>
   dequeue 1 1 1 5 one_slot_full = Inr (True, 7, one_slot_drained) \<and>
   data (blocks one_slot_full ! 0) ! 0 = 7 \<and> data (blocks one_slot_drained ! 0) ! 0 = 0 \<and>
   (\<exists>qm. map data (blocks qm) = map data (blocks one_slot_full) \<and> length (blocks qm) = 1 \<and>
     (let i = unat (index (chead qm)); b = blocks qm ! i; p = unat (index (resv b)) in
        i < 1 \<and> p < NE 1 1 \<and> i = unat (index (chead one_slot_drained)) \<and>
        7 = data (blocks one_slot_full ! i) ! p \<and>
        data (blocks one_slot_drained ! i) ! p = 0 \<and>
        one_slot_drained = qm\<lparr>blocks := (blocks qm)[i := b
               \<lparr>resv := (resv b)\<lparr>index := index (resv b) + 1\<rparr>,
                data := (data b)[p := 0],
                cons := (cons b)\<lparr>index := index (cons b) + 1\<rparr>\<rparr>]\<rparr>))"
proof -
  have wf: "wf_queue 1 1 one_slot_full"
    by (simp add: wf_queue_def one_slot_full_def NE_def)
  have d: "dequeue 1 1 1 5 one_slot_full = Inr (True, 7, one_slot_drained)"
    by code_simp
  have s: "data (blocks one_slot_full ! 0) ! 0 = 7" "data (blocks one_slot_drained ! 0) ! 0 = 0"
    by (simp_all add: one_slot_full_def one_slot_drained_def)
  from valid_1_1 wf d s dequeue_clears_slot [OF valid_1_1 wf d]
  show ?thesis by (simp only: simp_thms)
qed

section \<open>The head wraps against NE instead of B\<close>

text \<open>
  Both advances wrap the ring index of the head with \<^verbatim>\<open>if (ph.index >= NE)\<close> and
  \<^verbatim>\<open>ph.index % NE\<close>, while the ring has \<open>B\<close> blocks and the next block is chosen with
  \<^verbatim>\<open>% B\<close>. The two agree when \<open>NE = B\<close>, as for the queue of 16 slots in 4 blocks that
  \<^verbatim>\<open>main.cpp\<close> builds. The theorems of this section run the code on queues with
  \<open>NE \<noteq> B\<close>.
\<close>

text \<open>
  Claim C3 states that the two head indices stay below \<open>B\<close> in every reachable state,
  also when \<open>B\<close> differs from \<open>NE\<close>. On \<^verbatim>\<open>Queue<T, 2, 1>\<close> (one block of two slots),
  after two enqueues and two dequeues the head is at index 0; the advance made by the
  next enqueue succeeds and stores head index 1, which is not below \<open>B = 1\<close>, and the
  next loop iteration of that enqueue indexes \<open>blocks[1]\<close>.
\<close>

theorem head_index_leaves_ring:
  "valid_params 2 1 \<and>
   map_sum id (\<lambda>(outs, q). (outs, unat (index (phead q))))
     (run 2 2 1 [Enqueue 1, Enqueue 2, Dequeue 0, Dequeue 0] (Queue_ctor 2 1 (\<lambda>i j. 0::nat))) =
     Inr ([Enqueued 1 True, Enqueued 2 True, Dequeued 1 True, Dequeued 2 True], 0) \<and>
   (case run 2 2 1 [Enqueue 1, Enqueue 2, Dequeue 0, Dequeue 0] (Queue_ctor 2 1 (\<lambda>i j. 0::nat)) of
      Inl e \<Rightarrow> False
    | Inr (outs, q) \<Rightarrow>
        map_sum id (\<lambda>(ret, q'). (ret, unat (index (phead q')), length (blocks q')))
          (advance_phead 2 1 (phead q) q) = Inr (SUCCESS, 1, 1)) \<and>
   run 2 2 1 [Enqueue 1, Enqueue 2, Dequeue 0, Dequeue 0, Enqueue 3]
     (Queue_ctor 2 1 (\<lambda>i j. 0::nat)) = Inl OutOfBounds"
proof -
  have "valid_params 2 1" by (simp add: valid_params_def NE_def)
  moreover have "map_sum id (\<lambda>(outs, q). (outs, unat (index (phead q))))
     (run 2 2 1 [Enqueue 1, Enqueue 2, Dequeue 0, Dequeue 0] (Queue_ctor 2 1 (\<lambda>i j. 0::nat))) =
     Inr ([Enqueued 1 True, Enqueued 2 True, Dequeued 1 True, Dequeued 2 True], 0)"
    by code_simp
  moreover have
    "case run 2 2 1 [Enqueue 1, Enqueue 2, Dequeue 0, Dequeue 0] (Queue_ctor 2 1 (\<lambda>i j. 0::nat)) of
      Inl e \<Rightarrow> False
    | Inr (outs, q) \<Rightarrow>
        map_sum id (\<lambda>(ret, q'). (ret, unat (index (phead q')), length (blocks q')))
          (advance_phead 2 1 (phead q) q) = Inr (SUCCESS, 1, 1)"
    by code_simp
  moreover have "run 2 2 1 [Enqueue 1, Enqueue 2, Dequeue 0, Dequeue 0, Enqueue 3]
     (Queue_ctor 2 1 (\<lambda>i j. 0::nat)) = Inl OutOfBounds"
    by code_simp
  ultimately show ?thesis by (simp only: simp_thms)
qed

text \<open>
  Claim C5 states that \<^verbatim>\<open>advance_chead(ch)\<close>, with \<open>nb\<close> the block at ring index
  \<open>(ch.index + 1) mod B\<close>, on success raises \<open>nb.cons\<close> and \<open>nb.resv\<close> and advances the
  consumer head. On \<^verbatim>\<open>Queue<T, 2, 2>\<close> (two blocks of one slot), after \<^verbatim>\<open>enqueue(1)\<close>,
  the refused \<^verbatim>\<open>enqueue(2)\<close> and one \<^verbatim>\<open>dequeue\<close>, the consumer head is \<open>(0, 0)\<close> and
  block 1 carries \<open>comm = (1, 0)\<close>. The advance succeeds and raises \<open>resv\<close> and \<open>cons\<close> of
  block 1 to \<open>(1, 0)\<close>, but the head it stores is \<open>(1, 0)\<close>: index 1 is wrapped to 0 since
  \<open>1 \<ge> NE = 1\<close>, so the consumer head is on block 0 again and not on the block
  \<open>(0 + 1) mod 2 = 1\<close> that was raised.
\<close>

theorem consumer_head_misses_raised_block:
  "valid_params 2 2 \<and>
   (case run 2 2 2 [Enqueue 1, Enqueue 2, Dequeue 0] (Queue_ctor 2 2 (\<lambda>i j. 0::nat)) of
      Inl e \<Rightarrow> False
    | Inr (outs, q) \<Rightarrow>
        outs = [Enqueued 1 True, Enqueued 2 False, Dequeued 1 True] \<and>
        length (blocks q) = 2 \<and>
        chead q = Field_ctor 0 0 \<and>
        comm (blocks q ! 1) = Field_ctor 1 0 \<and>
        resv (blocks q ! 1) = Field_ctor 0 1 \<and> cons (blocks q ! 1) = Field_ctor 0 1 \<and>
        (case advance_chead 2 2 (chead q) 0 q of
           Inl e \<Rightarrow> False
         | Inr (ok, q') \<Rightarrow>
             ok \<and>
             resv (blocks q' ! 1) = Field_ctor 1 0 \<and> cons (blocks q' ! 1) = Field_ctor 1 0 \<and>
             blocks q' ! 0 = blocks q ! 0 \<and>
             chead q' = Field_ctor 1 0 \<and>
             (unat (index (chead q)) + 1) mod 2 = 1 \<and>
             unat (index (chead q')) = 0))"
proof -
  have "valid_params 2 2" by (simp add: valid_params_def NE_def)
  moreover have
    "case run 2 2 2 [Enqueue 1, Enqueue 2, Dequeue 0] (Queue_ctor 2 2 (\<lambda>i j. 0::nat)) of
      Inl e \<Rightarrow> False
    | Inr (outs, q) \<Rightarrow>
        outs = [Enqueued 1 True, Enqueued 2 False, Dequeued 1 True] \<and>
        length (blocks q) = 2 \<and>
        chead q = Field_ctor 0 0 \<and>
        comm (blocks q ! 1) = Field_ctor 1 0 \<and>
        resv (blocks q ! 1) = Field_ctor 0 1 \<and> cons (blocks q ! 1) = Field_ctor 0 1 \<and>
        (case advance_chead 2 2 (chead q) 0 q of
           Inl e \<Rightarrow> False
         | Inr (ok, q') \<Rightarrow>
             ok \<and>
             resv (blocks q' ! 1) = Field_ctor 1 0 \<and> cons (blocks q' ! 1) = Field_ctor 1 0 \<and>
             blocks q' ! 0 = blocks q ! 0 \<and>
             chead q' = Field_ctor 1 0 \<and>
             (unat (index (chead q)) + 1) mod 2 = 1 \<and>
             unat (index (chead q')) = 0)"
    by code_simp
  ultimately show ?thesis by (simp only: simp_thms)
qed

text \<open>
  Claim C1 states that in every sequential execution the values handed back by
  successful dequeues are the values accepted by successful enqueues, in order, each
  accepted item being delivered by exactly one dequeue. On \<^verbatim>\<open>Queue<T, 6, 2>\<close> (two blocks
  of three slots) the items 1 to 6 are accepted and 1 to 3 delivered; the enqueue of 7 then
  stores head index 2 and indexes \<open>blocks[2]\<close> of a ring of two blocks. From that call on
  the execution has no defined behaviour, so nothing delivers the accepted items 4, 5
  and 6.
\<close>

theorem accepted_items_stranded:
  "valid_params 6 2 \<and>
   map_sum id fst
     (run 2 6 2 [Enqueue 1, Dequeue 0, Enqueue 2, Dequeue 0, Enqueue 3, Dequeue 0,
                 Enqueue 4, Enqueue 5, Enqueue 6] (Queue_ctor 6 2 (\<lambda>i j. 0::nat))) =
     Inr [Enqueued 1 True, Dequeued 1 True, Enqueued 2 True, Dequeued 2 True,
          Enqueued 3 True, Dequeued 3 True, Enqueued 4 True, Enqueued 5 True, Enqueued 6 True] \<and>
   run 2 6 2 [Enqueue 1, Dequeue 0, Enqueue 2, Dequeue 0, Enqueue 3, Dequeue 0,
              Enqueue 4, Enqueue 5, Enqueue 6, Enqueue 7] (Queue_ctor 6 2 (\<lambda>i j. 0::nat)) =
     Inl OutOfBounds \<and>
   run 2 6 2 [Enqueue 1, Dequeue 0, Enqueue 2, Dequeue 0, Enqueue 3, Dequeue 0,
              Enqueue 4, Enqueue 5, Enqueue 6, Enqueue 7, Dequeue 0, Dequeue 0, Dequeue 0]
     (Queue_ctor 6 2 (\<lambda>i j. 0::nat)) = Inl OutOfBounds"
proof -
  have "valid_params 6 2" by (simp add: valid_params_def NE_def)
  moreover have "map_sum id fst
     (run 2 6 2 [Enqueue 1, Dequeue 0, Enqueue 2, Dequeue 0, Enqueue 3, Dequeue 0,
                 Enqueue 4, Enqueue 5, Enqueue 6] (Queue_ctor 6 2 (\<lambda>i j. 0::nat))) =
     Inr [Enqueued 1 True, Dequeued 1 True, Enqueued 2 True, Dequeued 2 True,
          Enqueued 3 True, Dequeued 3 True, Enqueued 4 True, Enqueued 5 True, Enqueued 6 True]"
    by code_simp
  moreover have "run 2 6 2 [Enqueue 1, Dequeue 0, Enqueue 2, Dequeue 0, Enqueue 3, Dequeue 0,
              Enqueue 4, Enqueue 5, Enqueue 6, Enqueue 7] (Queue_ctor 6 2 (\<lambda>i j. 0::nat)) =
     Inl OutOfBounds"
    by code_simp
  moreover have "run 2 6 2 [Enqueue 1, Dequeue 0, Enqueue 2, Dequeue 0, Enqueue 3, Dequeue 0,
              Enqueue 4, Enqueue 5, Enqueue 6, Enqueue 7, Dequeue 0, Dequeue 0, Dequeue 0]
     (Queue_ctor 6 2 (\<lambda>i j. 0::nat)) = Inl OutOfBounds"
    by code_simp
  ultimately show ?thesis by (simp only: simp_thms)
qed

text \<open>
  Claim C2 states that \<open>N\<close> consecutive enqueues on a fresh \<^verbatim>\<open>Queue<T, N, B>\<close> all
  return true. On \<^verbatim>\<open>Queue<T, 2, 2>\<close> (two blocks of one slot) the second enqueue returns
  false: the advance stamps block 1 and then wraps the head back to block 0, which is full.
\<close>

theorem second_of_two_refused:
  "valid_params 2 2 \<and>
   map_sum id fst (run 3 2 2 [Enqueue 1, Enqueue 2] (Queue_ctor 2 2 (\<lambda>i j. 0::nat))) =
     Inr [Enqueued 1 True, Enqueued 2 False] \<and>
   map_sum id (\<lambda>(outs, q). (phead q, map alloc (blocks q)))
     (run 3 2 2 [Enqueue 1, Enqueue 2] (Queue_ctor 2 2 (\<lambda>i j. 0::nat))) =
     Inr (Field_ctor 1 0, [Field_ctor 0 1, Field_ctor 1 0])"
proof -
  have "valid_params 2 2" by (simp add: valid_params_def NE_def)
  moreover have
    "map_sum id fst (run 3 2 2 [Enqueue 1, Enqueue 2] (Queue_ctor 2 2 (\<lambda>i j. 0::nat))) =
     Inr [Enqueued 1 True, Enqueued 2 False]"
    by code_simp
  moreover have "map_sum id (\<lambda>(outs, q). (phead q, map alloc (blocks q)))
     (run 3 2 2 [Enqueue 1, Enqueue 2] (Queue_ctor 2 2 (\<lambda>i j. 0::nat))) =
     Inr (Field_ctor 1 0, [Field_ctor 0 1, Field_ctor 1 0])"
    by code_simp
  ultimately show ?thesis by (simp only: simp_thms)
qed

text \<open>
  The scenario of the specification, where \<open>NE = B = 4\<close>: sixteen enqueues return
  true, the seventeenth false, sixteen dequeues hand back 0 to 15 in order, and the
  enqueue of 16 returns true and lands in slot 0 of block 0 at generation 1.
\<close>

lemma scenario_16_4:
  "map_sum id (\<lambda>(outs, q). (outs, alloc (blocks q ! 0), data (blocks q ! 0) ! 0, phead q))
     (run 2 16 4 (map Enqueue [0..<17] @ replicate 16 (Dequeue 99) @ [Enqueue 16])
        (Queue_ctor 16 4 (\<lambda>i j. 0))) =
   Inr (map (\<lambda>i. Enqueued i True) [0..<16] @ [Enqueued 16 False] @
        map (\<lambda>i. Dequeued i True) [0..<16] @ [Enqueued 16 True],
        Field_ctor 1 1, 16, Field_ctor 1 0)"
  by code_simp

text \<open>
  Claim C9 states that a call returning false leaves the whole queue state as it was.
  On \<^verbatim>\<open>Queue<T, 2, 2>\<close> the second enqueue returns false after its first loop iteration
  has stamped \<open>alloc\<close> and \<open>comm\<close> of block 1 and moved the producer head to generation 1.
\<close>

theorem refused_enqueue_changes_state:
  "valid_params 2 2 \<and>
   (case run 1 2 2 [Enqueue 1] (Queue_ctor 2 2 (\<lambda>i j. 0::nat)) of
      Inl e \<Rightarrow> False
    | Inr (outs, q) \<Rightarrow>
        (case enqueue 2 2 2 2 q of
           Inl e \<Rightarrow> False
         | Inr (ok, q') \<Rightarrow>
             \<not> ok \<and> q' \<noteq> q \<and>
             phead q = Field_ctor 0 0 \<and> phead q' = Field_ctor 1 0 \<and>
             alloc (blocks q ! 1) = Field_ctor 0 1 \<and> alloc (blocks q' ! 1) = Field_ctor 1 0 \<and>
             comm (blocks q ! 1) = Field_ctor 0 1 \<and> comm (blocks q' ! 1) = Field_ctor 1 0))"
proof -
  have "valid_params 2 2" by (simp add: valid_params_def NE_def)
  moreover have
    "case run 1 2 2 [Enqueue 1] (Queue_ctor 2 2 (\<lambda>i j. 0::nat)) of
      Inl e \<Rightarrow> False
    | Inr (outs, q) \<Rightarrow>
        (case enqueue 2 2 2 2 q of
           Inl e \<Rightarrow> False
         | Inr (ok, q') \<Rightarrow>
             \<not> ok \<and> q' \<noteq> q \<and>
             phead q = Field_ctor 0 0 \<and> phead q' = Field_ctor 1 0 \<and>
             alloc (blocks q ! 1) = Field_ctor 0 1 \<and> alloc (blocks q' ! 1) = Field_ctor 1 0 \<and>
             comm (blocks q ! 1) = Field_ctor 0 1 \<and> comm (blocks q' ! 1) = Field_ctor 1 0)"
    by code_simp
  ultimately show ?thesis by (simp only: simp_thms)
qed

text \<open>
  Claim C10 states that the loop of \<^verbatim>\<open>enqueue\<close> runs at most two iterations, the
  allocation after a successful advance being made in the block just stamped. On
  \<^verbatim>\<open>Queue<T, 6, 3>\<close> (three blocks of two slots), after four enqueues each followed by a
  dequeue, the fifth enqueue advances from block 1, is wrapped to block 0, which is full,
  advances again and allocates in block 1 in its third iteration: two iterations do not
  suffice and three do.
\<close>

theorem enqueue_third_iteration:
  "valid_params 6 3 \<and>
   (case run 2 6 3 [Enqueue 1, Dequeue 0, Enqueue 2, Dequeue 0, Enqueue 3, Dequeue 0,
                    Enqueue 4, Dequeue 0] (Queue_ctor 6 3 (\<lambda>i j. 0::nat)) of
      Inl e \<Rightarrow> False
    | Inr (outs, q) \<Rightarrow>
        outs = [Enqueued 1 True, Dequeued 1 True, Enqueued 2 True, Dequeued 2 True,
                Enqueued 3 True, Dequeued 3 True, Enqueued 4 True, Dequeued 4 True] \<and>
        enqueue 2 6 3 5 q = Inl OutOfFuel \<and>
        map_sum id (\<lambda>(ok, q'). (ok, phead q', data (blocks q' ! 1))) (enqueue 3 6 3 5 q) =
          Inr (True, Field_ctor 1 1, [5, 0]))"
proof -
  have "valid_params 6 3" by (simp add: valid_params_def NE_def)
  moreover have
    "case run 2 6 3 [Enqueue 1, Dequeue 0, Enqueue 2, Dequeue 0, Enqueue 3, Dequeue 0,
                    Enqueue 4, Dequeue 0] (Queue_ctor 6 3 (\<lambda>i j. 0::nat)) of
      Inl e \<Rightarrow> False
    | Inr (outs, q) \<Rightarrow>
        outs = [Enqueued 1 True, Dequeued 1 True, Enqueued 2 True, Dequeued 2 True,
                Enqueued 3 True, Dequeued 3 True, Enqueued 4 True, Dequeued 4 True] \<and>
        enqueue 2 6 3 5 q = Inl OutOfFuel \<and>
        map_sum id (\<lambda>(ok, q'). (ok, phead q', data (blocks q' ! 1))) (enqueue 3 6 3 5 q) =
          Inr (True, Field_ctor 1 1, [5, 0])"
    by code_simp
  ultimately show ?thesis by (simp only: simp_thms)
qed

section \<open>Queues with as many blocks as slots in a block\<close>

text \<open>
  For \<open>N = B * B\<close> the two wraps of the head coincide. In a run of fewer than \<open>2 ^ 44 - 2\<close>
  calls on a fresh queue, where no version wraps, every call then returns within two
  iterations of its loop, a refused call leaves the queue as it was, the heads stay inside
  the ring, and the values delivered are the first of the values accepted, in order.
\<close>

lemma square_NE [simp]: "square N B \<Longrightarrow> NE N B = B"
  by (auto simp: square_def NE_def valid_params_def)

lemma square_bounds: "square N B \<Longrightarrow> 0 < B \<and> B < 2 ^ 20"
  by (auto simp: square_def NE_def valid_params_def)

lemma square_valid: "square N B \<Longrightarrow> valid_params N B"
  unfolding square_def by blast

subsection \<open>Fields built from numbers\<close>

lemma version_ctor: "v < 2 ^ 44 \<Longrightarrow> unat (version (Field_ctor v i)) = v"
  by (simp add: Field_ctor_def unat_of_nat)

lemma index_ctor: "i < 2 ^ 20 \<Longrightarrow> unat (index (Field_ctor v i)) = i"
  by (simp add: Field_ctor_def unat_of_nat)

lemma version_less_ctor:
  "v < 2 ^ 44 \<Longrightarrow> w < 2 ^ 44 \<Longrightarrow> version (Field_ctor v i) < version (Field_ctor w k) \<longleftrightarrow> v < w"
  by (simp add: word_less_nat_alt version_ctor)

lemma version_eq_ctor:
  "v < 2 ^ 44 \<Longrightarrow> w < 2 ^ 44 \<Longrightarrow> version (Field_ctor v i) = version (Field_ctor w k) \<longleftrightarrow> v = w"
  by (simp add: word_unat_eq_iff version_ctor)

lemma index_eq_ctor:
  "i < 2 ^ 20 \<Longrightarrow> k < 2 ^ 20 \<Longrightarrow> index (Field_ctor v i) = index (Field_ctor w k) \<longleftrightarrow> i = k"
  by (simp add: word_unat_eq_iff index_ctor)

lemma ctor_index_Suc: "(Field_ctor v i)\<lparr>index := index (Field_ctor v i) + 1\<rparr> = Field_ctor v (Suc i)"
  by (simp add: Field_ctor_def)

lemma ctor_version_Suc: "\<lparr>version = version (Field_ctor v i) + 1, index = 0\<rparr> = Field_ctor (Suc v) 0"
  by (simp add: Field_ctor_def)

lemma next_head_ctor:
  assumes "square N B" "p < B"
  shows "next_head N B (Field_ctor L p) =
     (if Suc p < B then Field_ctor L (Suc p) else Field_ctor (Suc L) 0)"
proof -
  have b: "0 < B" "B < 2 ^ 20" using square_bounds [OF assms(1)] by simp_all
  then have p: "Suc p < 2 ^ 20" using assms(2) by simp
  have "index (Field_ctor L p) + 1 = (of_nat (Suc p) :: 20 word)"
    by (simp add: Field_ctor_def)
  then have u: "unat (index (Field_ctor L p) + 1) = Suc p"
    using p by (simp only: unat_of_nat) simp
  show ?thesis
  proof (cases "Suc p < B")
    case True
    with u assms(1) show ?thesis
      by (simp add: next_head_def Field_ctor_def)
  next
    case False
    with assms(2) have "Suc p = B" by simp
    with u assms(1) show ?thesis
      by (simp add: next_head_def Field_ctor_def)
  qed
qed

subsection \<open>The state of the ring\<close>

lemma ring_state_simps [simp]:
  "length (blocks (ring_state n P C s)) = n"
  "phead (ring_state n P C s) = Field_ctor (lap P) (blk P)"
  "chead (ring_state n P C s) = Field_ctor (lap C) (blk C)"
  by (simp_all add: ring_state_def)

lemma ring_state_nth:
  "j < n \<Longrightarrow> blocks (ring_state n P C s) ! j =
     \<lparr>alloc = side_cursor n P j, comm = side_cursor n P j,
      resv = side_cursor n C j, cons = side_cursor n C j, data = s j\<rparr>"
  by (simp add: ring_state_def)

lemma ring_state_update:
  assumes "j < n"
    and "\<And>i. i < n \<Longrightarrow> i \<noteq> j \<Longrightarrow> side_cursor n P' i = side_cursor n P i"
    and "\<And>i. i < n \<Longrightarrow> i \<noteq> j \<Longrightarrow> side_cursor n C' i = side_cursor n C i"
  shows "(blocks (ring_state n P C s))[j :=
        \<lparr>alloc = side_cursor n P' j, comm = side_cursor n P' j,
         resv = side_cursor n C' j, cons = side_cursor n C' j, data = d\<rparr>] =
     blocks (ring_state n P' C' (s(j := d)))"
  using assms
  by (intro nth_equalityI) (auto simp: ring_state_def nth_list_update)

lemma side_pair_bounds:
  assumes "fill P \<le> n"
  shows "fst (side_pair n P j) \<le> Suc (lap P)" and "snd (side_pair n P j) \<le> n"
  using assms by (auto simp: side_pair_def gen_def)

lemma side_pair_fill:
  "side_pair n (P\<lparr>fill := a\<rparr>) j =
     (if j = blk P then (gen j (lap P), a) else side_pair n P j)"
  by (auto simp: side_pair_def)

lemma side_cursor_fill:
  "side_cursor n (P\<lparr>fill := a\<rparr>) j =
     (if j = blk P then Field_ctor (gen j (lap P)) a else side_cursor n P j)"
  by (simp add: side_cursor_def side_pair_fill)

lemma side_pair_self: "side_pair n P (blk P) = (gen (blk P) (lap P), fill P)"
  by (simp add: side_pair_def)

lemma side_cursor_self: "side_cursor n P (blk P) = Field_ctor (gen (blk P) (lap P)) (fill P)"
  by (simp add: side_cursor_def side_pair_self)

lemma blk_entered: "blk P < n \<Longrightarrow> blk (entered n P) = Suc (blk P) mod n"
proof (cases "Suc (blk P) < n")
  case True
  then show ?thesis by (simp add: entered_def)
next
  case False
  moreover assume "blk P < n"
  ultimately have "Suc (blk P) = n" by simp
  then show ?thesis by (simp add: entered_def)
qed

lemma gen_entered: "gen (blk (entered n P)) (lap (entered n P)) = Suc (lap P)"
  by (simp add: entered_def gen_def)

lemma side_pair_next:
  assumes "blk P < n" "fill P = n"
  shows "side_pair n P (Suc (blk P) mod n) = (lap P, n)"
proof (cases "Suc (blk P) < n")
  case True
  then show ?thesis by (simp add: side_pair_def)
next
  case False
  with assms have "Suc (blk P) = n" by simp
  with assms show ?thesis by (auto simp: side_pair_def gen_def)
qed

lemma side_pair_entered:
  assumes "blk P < n" "fill P = n" "j < n"
  shows "side_pair n (entered n P) j =
     (if j = Suc (blk P) mod n then (Suc (lap P), 0) else side_pair n P j)"
proof (cases "Suc (blk P) < n")
  case True
  with assms show ?thesis by (auto simp: side_pair_def entered_def gen_def)
next
  case False
  with assms have "Suc (blk P) = n" by simp
  with assms show ?thesis by (auto simp: side_pair_def entered_def gen_def)
qed

lemma succ_pos_entered:
  assumes "blk P < n" "fill P = n"
  shows "succ_pos n P = (entered n P)\<lparr>fill := Suc 0\<rparr>"
  using assms by (simp add: succ_pos_def entered_def)

lemma succ_pos_fill: "fill P < n \<Longrightarrow> succ_pos n P = P\<lparr>fill := Suc (fill P)\<rparr>"
  by (simp add: succ_pos_def)

lemma Queue_blocks_eq:
  "blocks q' = blocks (ring_state n P C s) \<Longrightarrow> phead q' = Field_ctor (lap P) (blk P) \<Longrightarrow>
   chead q' = Field_ctor (lap C) (blk C) \<Longrightarrow> (q' :: 'a Queue) = ring_state n P C s"
  by (cases q') (simp add: ring_state_def)

lemma enqueue_in_block:
  assumes sq: "square N B" and p: "blk P < B" and a: "fill P < B"
    and len: "length (s (blk P)) = B"
  shows "enqueue (Suc fuel) N B t (ring_state B P C s) =
     Inr (True, ring_state B (P\<lparr>fill := Suc (fill P)\<rparr>) C
                  (s(blk P := (s (blk P))[fill P := t])))"
proof -
  let ?q = "ring_state B P C s"
  have b: "B < 2 ^ 20" using square_bounds [OF sq] by simp
  have i: "unat (index (phead ?q)) = blk P"
    using p b by (simp add: index_ctor)
  then have il: "unat (index (phead ?q)) < length (blocks ?q)" using p by simp
  have f: "unat (index (side_cursor B P (blk P))) = fill P"
    using a b by (simp add: side_cursor_self index_ctor)
  have upd: "(blocks ?q)[blk P :=
        \<lparr>alloc = side_cursor B (P\<lparr>fill := Suc (fill P)\<rparr>) (blk P),
         comm = side_cursor B (P\<lparr>fill := Suc (fill P)\<rparr>) (blk P),
         resv = side_cursor B C (blk P), cons = side_cursor B C (blk P),
         data = (s (blk P))[fill P := t]\<rparr>] =
     blocks (ring_state B (P\<lparr>fill := Suc (fill P)\<rparr>) C (s(blk P := (s (blk P))[fill P := t])))"
    by (rule ring_state_update [OF p]) (simp_all add: side_cursor_fill)
  have "enqueue (Suc fuel) N B t ?q =
     Inr (True, ?q\<lparr>blocks := (blocks ?q)[blk P :=
        \<lparr>alloc = side_cursor B (P\<lparr>fill := Suc (fill P)\<rparr>) (blk P),
         comm = side_cursor B (P\<lparr>fill := Suc (fill P)\<rparr>) (blk P),
         resv = side_cursor B C (blk P), cons = side_cursor B C (blk P),
         data = (s (blk P))[fill P := t]\<rparr>]\<rparr>)"
    unfolding enqueue_eq [OF il] i
    using sq p a len f
    by (simp add: Let_def ring_state_nth side_cursor_fill)
       (simp add: side_cursor_self ctor_index_Suc)
  also have "?q\<lparr>blocks := (blocks ?q)[blk P :=
        \<lparr>alloc = side_cursor B (P\<lparr>fill := Suc (fill P)\<rparr>) (blk P),
         comm = side_cursor B (P\<lparr>fill := Suc (fill P)\<rparr>) (blk P),
         resv = side_cursor B C (blk P), cons = side_cursor B C (blk P),
         data = (s (blk P))[fill P := t]\<rparr>]\<rparr> =
      ring_state B (P\<lparr>fill := Suc (fill P)\<rparr>) C (s(blk P := (s (blk P))[fill P := t]))"
    by (rule Queue_blocks_eq) (simp_all add: upd)
  finally show ?thesis .
qed

lemma side_cursor_entered:
  assumes "blk P < n" "fill P = n" "j < n"
  shows "side_cursor n (entered n P) j =
     (if j = Suc (blk P) mod n then Field_ctor (Suc (lap P)) 0 else side_cursor n P j)"
  by (simp add: side_cursor_def side_pair_entered [OF assms])

lemma head_entered:
  assumes "square N B" "blk P < B"
  shows "next_head N B (Field_ctor (lap P) (blk P)) =
     Field_ctor (lap (entered B P)) (blk (entered B P))"
  by (simp add: next_head_ctor [OF assms] entered_def)

lemma reuse_blocked_ring:
  assumes sq: "square N B" and p: "blk P < B" and a: "fill P = B" and c: "fill C \<le> B"
    and bP: "lap P + 1 < 2 ^ 44" and bC: "lap C + 1 < 2 ^ 44"
  shows "reuse_blocked N B (Field_ctor (lap P) (blk P))
           (blocks (ring_state B P C s) ! (Suc (blk P) mod B)) \<longleftrightarrow> stalled B P C"
proof -
  have b: "0 < B" "B < 2 ^ 20" using square_bounds [OF sq] by simp_all
  let ?j = "Suc (blk P) mod B"
  have j: "?j < B" using b by simp
  obtain v i where vi: "side_pair B C ?j = (v, i)" by (cases "side_pair B C ?j")
  from side_pair_bounds [OF c, of ?j] vi have v: "v < 2 ^ 44" and i: "i < 2 ^ 20"
    using bC b by simp_all
  have L: "lap P < 2 ^ 44" using bP by simp
  show ?thesis
    using sq a
    by (simp add: reuse_blocked_def ring_state_nth [OF j] side_cursor_def vi stalled_def
        version_less_ctor [OF v L] version_eq_ctor [OF v L] index_ctor [OF i])
qed

lemma advance_phead_ring:
  assumes sq: "square N B" and p: "blk P < B" and a: "fill P = B" and c: "fill C \<le> B"
    and bP: "lap P + 1 < 2 ^ 44" and bC: "lap C + 1 < 2 ^ 44"
  shows "advance_phead N B (Field_ctor (lap P) (blk P)) (ring_state B P C s) =
     (if stalled B P C then Inr (NO_ENTRY, ring_state B P C s)
      else Inr (SUCCESS, ring_state B (entered B P) C s))"
proof -
  let ?q = "ring_state B P C s"
  let ?ph = "Field_ctor (lap P) (blk P)"
  have b: "0 < B" "B < 2 ^ 20" using square_bounds [OF sq] by simp_all
  have i: "unat (index ?ph) = blk P" using p b by (simp add: index_ctor)
  let ?j = "Suc (blk P) mod B"
  have j: "?j < B" using b by simp
  let ?f = "Field_ctor (Suc (lap P)) 0"
  have f: "\<lparr>version = version ?ph + 1, index = 0\<rparr> = ?f" by (rule ctor_version_Suc)
  have al: "side_cursor B P ?j = Field_ctor (lap P) B"
    by (simp add: side_cursor_def side_pair_next [OF p a])
  have "version (Field_ctor (lap P) B) < version ?f"
    using bP by (subst version_less_ctor) simp_all
  then have rz: "raise_to ?f (side_cursor B P ?j) = ?f"
    by (simp add: raise_to_def al)
  have upd: "(blocks ?q)[?j :=
        \<lparr>alloc = side_cursor B (entered B P) ?j, comm = side_cursor B (entered B P) ?j,
         resv = side_cursor B C ?j, cons = side_cursor B C ?j, data = s ?j\<rparr>] =
     blocks (ring_state B (entered B P) C (s(?j := s ?j)))"
    by (rule ring_state_update [OF j]) (simp_all add: side_cursor_entered [OF p a])
  have en: "side_cursor B (entered B P) ?j = ?f"
    by (simp add: side_cursor_entered [OF p a j])
  have q1: "?q\<lparr>blocks := (blocks ?q)[?j := (blocks ?q ! ?j)
        \<lparr>alloc := raise_to ?f (alloc (blocks ?q ! ?j)),
         comm := raise_to ?f (comm (blocks ?q ! ?j))\<rparr>],
      phead := next_head N B ?ph\<rparr> = ring_state B (entered B P) C s"
    apply (rule Queue_blocks_eq)
    using upd
    by (simp_all add: ring_state_nth [OF j] rz en head_entered [OF sq p])
  have same: "index (resv (blocks ?q ! ?j)) = index (cons (blocks ?q ! ?j))"
    by (simp add: ring_state_nth [OF j])
  show ?thesis
    unfolding advance_phead_eq [OF square_valid [OF sq] ring_state_simps(1)] i Let_def f
    using reuse_blocked_ring [OF sq p a c bP bC, of s] same q1
    by simp
qed

lemma blk_entered_less: "0 < n \<Longrightarrow> blk (entered n P) < n"
  by (simp add: entered_def)

lemma enqueue_ring:
  assumes sq: "square N B" and p: "blk P < B" and a: "fill P \<le> B" and c: "fill C \<le> B"
    and bP: "lap P + 1 < 2 ^ 44" and bC: "lap C + 1 < 2 ^ 44"
    and len: "\<And>j. j < B \<Longrightarrow> length (s j) = B"
  shows "enqueue (Suc (Suc fuel)) N B t (ring_state B P C s) =
     (if stalled B P C then Inr (False, ring_state B P C s)
      else Inr (True, ring_state B (succ_pos B P) C
             (s(blk (succ_pos B P) := (s (blk (succ_pos B P)))[fill (succ_pos B P) - 1 := t]))))"
proof (cases "fill P < B")
  case True
  then have "\<not> stalled B P C" by (simp add: stalled_def)
  with enqueue_in_block [where s = s and P = P and fuel = "Suc fuel" and t = t and C = C,
      OF sq p True len [OF p]] True
  show ?thesis by (simp add: succ_pos_fill)
next
  case False
  with a have full: "fill P = B" by simp
  let ?q = "ring_state B P C s"
  have b: "0 < B" "B < 2 ^ 20" using square_bounds [OF sq] by simp_all
  have i: "unat (index (phead ?q)) = blk P"
    using p b by (simp add: index_ctor)
  then have il: "unat (index (phead ?q)) < length (blocks ?q)" using p by simp
  have f: "unat (index (side_cursor B P (blk P))) = B"
    using full b by (simp add: side_cursor_self index_ctor)
  have step: "enqueue (Suc (Suc fuel)) N B t ?q =
     (case advance_phead N B (Field_ctor (lap P) (blk P)) ?q of
        Inl e \<Rightarrow> Inl e
      | Inr (ret, q') \<Rightarrow> if ret = SUCCESS then enqueue (Suc fuel) N B t q' else Inr (False, q'))"
    unfolding enqueue_eq [OF il] i
    using sq p f by (simp add: Let_def ring_state_nth)
  show ?thesis
  proof (cases "stalled B P C")
    case True
    then show ?thesis
      unfolding step advance_phead_ring [OF sq p full c bP bC] by simp
  next
    case False
    let ?E = "entered B P"
    have e: "blk ?E < B" "fill ?E < B" using b by (simp_all add: entered_def)
    from False show ?thesis
      unfolding step advance_phead_ring [OF sq p full c bP bC]
      using enqueue_in_block [where s = s and P = ?E and fuel = fuel and t = t and C = C,
          OF sq e len [OF e(1)]]
      by (simp add: succ_pos_entered [OF p full] entered_def)
  qed
qed

subsection \<open>The consumer on ring states\<close>

lemma dequeue_in_block:
  assumes sq: "square N B" and c: "blk C < B" and r: "fill C < B" and a: "fill P \<le> B"
    and len: "length (s (blk C)) = B"
  shows "dequeue (Suc fuel) N B t (ring_state B P C s) =
     (if fill C = snd (side_pair B P (blk C)) then Inr (False, t, ring_state B P C s)
      else Inr (True, s (blk C) ! fill C,
             ring_state B P (C\<lparr>fill := Suc (fill C)\<rparr>) (s(blk C := (s (blk C))[fill C := 0]))))"
proof -
  let ?q = "ring_state B P C s"
  have b: "B < 2 ^ 20" using square_bounds [OF sq] by simp
  have i: "unat (index (chead ?q)) = blk C"
    using c b by (simp add: index_ctor)
  then have il: "unat (index (chead ?q)) < length (blocks ?q)" using c by simp
  have f: "unat (index (side_cursor B C (blk C))) = fill C"
    using r b by (simp add: side_cursor_self index_ctor)
  have k: "snd (side_pair B P (blk C)) < 2 ^ 20"
    using side_pair_bounds(2) [OF a, of "blk C"] b by simp
  have ne: "index (side_cursor B C (blk C)) = index (side_cursor B P (blk C)) \<longleftrightarrow>
      fill C = snd (side_pair B P (blk C))"
    using r b k by (simp add: side_cursor_self) (simp add: side_cursor_def index_eq_ctor)
  have upd: "(blocks ?q)[blk C :=
        \<lparr>alloc = side_cursor B P (blk C), comm = side_cursor B P (blk C),
         resv = side_cursor B (C\<lparr>fill := Suc (fill C)\<rparr>) (blk C),
         cons = side_cursor B (C\<lparr>fill := Suc (fill C)\<rparr>) (blk C),
         data = (s (blk C))[fill C := 0]\<rparr>] =
     blocks (ring_state B P (C\<lparr>fill := Suc (fill C)\<rparr>) (s(blk C := (s (blk C))[fill C := 0])))"
    by (rule ring_state_update [OF c]) (simp_all add: side_cursor_fill)
  have q': "?q\<lparr>blocks := (blocks ?q)[blk C :=
        \<lparr>alloc = side_cursor B P (blk C), comm = side_cursor B P (blk C),
         resv = side_cursor B (C\<lparr>fill := Suc (fill C)\<rparr>) (blk C),
         cons = side_cursor B (C\<lparr>fill := Suc (fill C)\<rparr>) (blk C),
         data = (s (blk C))[fill C := 0]\<rparr>]\<rparr> =
      ring_state B P (C\<lparr>fill := Suc (fill C)\<rparr>) (s(blk C := (s (blk C))[fill C := 0]))"
    by (rule Queue_blocks_eq) (simp_all add: upd)
  show ?thesis
  proof (cases "fill C = snd (side_pair B P (blk C))")
    case True
    then show ?thesis
      unfolding dequeue_eq [OF il] i
      using sq c r f ne by (simp add: Let_def ring_state_nth)
  next
    case False
    have "dequeue (Suc fuel) N B t ?q =
      Inr (True, s (blk C) ! fill C, ?q\<lparr>blocks := (blocks ?q)[blk C :=
        \<lparr>alloc = side_cursor B P (blk C), comm = side_cursor B P (blk C),
         resv = side_cursor B (C\<lparr>fill := Suc (fill C)\<rparr>) (blk C),
         cons = side_cursor B (C\<lparr>fill := Suc (fill C)\<rparr>) (blk C),
         data = (s (blk C))[fill C := 0]\<rparr>]\<rparr>)"
      unfolding dequeue_eq [OF il] i
      using sq c r f ne False len
      by (simp add: Let_def ring_state_nth side_cursor_fill)
         (simp add: side_cursor_self ctor_index_Suc)
    with False show ?thesis by (simp add: q')
  qed
qed

lemma advance_chead_ring:
  assumes sq: "square N B" and c: "blk C < B" and r: "fill C = B" and a: "fill P \<le> B"
    and bP: "lap P + 1 < 2 ^ 44" and bC: "lap C + 1 < 2 ^ 44"
  shows "advance_chead N B (Field_ctor (lap C) (blk C)) vsn (ring_state B P C s) =
     (if fst (side_pair B P (Suc (blk C) mod B)) = Suc (lap C)
      then Inr (True, ring_state B P (entered B C) s)
      else Inr (False, ring_state B P C s))"
proof -
  let ?q = "ring_state B P C s"
  let ?ch = "Field_ctor (lap C) (blk C)"
  have b: "0 < B" "B < 2 ^ 20" using square_bounds [OF sq] by simp_all
  have i: "unat (index ?ch) = blk C" using c b by (simp add: index_ctor)
  have vc: "unat (version ?ch) = lap C" using bC by (simp add: version_ctor)
  let ?j = "Suc (blk C) mod B"
  have j: "?j < B" using b by simp
  have vp: "unat (version (side_cursor B P ?j)) = fst (side_pair B P ?j)"
    using side_pair_bounds(1) [OF a, of ?j] bP
    by (simp add: side_cursor_def version_ctor)
  let ?f = "Field_ctor (Suc (lap C)) 0"
  have f: "\<lparr>version = version ?ch + 1, index = 0\<rparr> = ?f" by (rule ctor_version_Suc)
  have al: "side_cursor B C ?j = Field_ctor (lap C) B"
    by (simp add: side_cursor_def side_pair_next [OF c r])
  have "version (Field_ctor (lap C) B) < version ?f"
    using bC by (subst version_less_ctor) simp_all
  then have rz: "raise_to ?f (side_cursor B C ?j) = ?f"
    by (simp add: raise_to_def al)
  have upd: "(blocks ?q)[?j :=
        \<lparr>alloc = side_cursor B P ?j, comm = side_cursor B P ?j,
         resv = side_cursor B (entered B C) ?j, cons = side_cursor B (entered B C) ?j,
         data = s ?j\<rparr>] =
     blocks (ring_state B P (entered B C) (s(?j := s ?j)))"
    by (rule ring_state_update [OF j]) (simp_all add: side_cursor_entered [OF c r])
  have en: "side_cursor B (entered B C) ?j = ?f"
    by (simp add: side_cursor_entered [OF c r j])
  have q1: "?q\<lparr>blocks := (blocks ?q)[?j := (blocks ?q ! ?j)
        \<lparr>cons := raise_to ?f (cons (blocks ?q ! ?j)),
         resv := raise_to ?f (resv (blocks ?q ! ?j))\<rparr>],
      chead := next_head N B ?ch\<rparr> = ring_state B P (entered B C) s"
    apply (rule Queue_blocks_eq)
    using upd
    by (simp_all add: ring_state_nth [OF j] rz en head_entered [OF sq c])
  show ?thesis
    unfolding advance_chead_eq [OF square_valid [OF sq] ring_state_simps(1)] i Let_def f
    using q1 vp vc
    by (simp add: ring_state_nth [OF j])
qed

subsection \<open>Producer and consumer positions stay in step\<close>

lemma Suc_mod_cases:
  assumes "p < n"
  obtains "Suc p < n" "Suc p mod n = Suc p" | "Suc p = n" "Suc p mod n = 0"
proof (cases "Suc p < n")
  case True
  then show ?thesis using that(1) by simp
next
  case False
  with assms have "Suc p = n" by simp
  then show ?thesis using that(2) by simp
qed

lemma in_block_empty_iff:
  assumes "pos_ok n P" "pos_ok n C" "in_step n P C" "fill C < n"
  shows "fill C = snd (side_pair n P (blk C)) \<longleftrightarrow> same_pos P C"
proof -
  obtain L p a where P: "P = \<lparr>lap = L, blk = p, fill = a\<rparr>" by (cases P) simp
  obtain L' c r where C: "C = \<lparr>lap = L', blk = c, fill = r\<rparr>" by (cases C) simp
  show ?thesis
    using assms unfolding P C pos_ok_def in_step_def side_pair_def same_pos_def
    by (simp split: if_splits) arith
qed

lemma advance_ok_iff:
  assumes "pos_ok n P" "pos_ok n C" "in_step n P C" "fill C = n"
  shows "fst (side_pair n P (Suc (blk C) mod n)) = Suc (lap C) \<longleftrightarrow> \<not> same_pos P C"
proof -
  obtain L p a where P: "P = \<lparr>lap = L, blk = p, fill = a\<rparr>" by (cases P) simp
  obtain L' c r where C: "C = \<lparr>lap = L', blk = c, fill = r\<rparr>" by (cases C) simp
  have c: "c < n" using assms(2) by (simp add: pos_ok_def C)
  show ?thesis
  proof (rule Suc_mod_cases [OF c])
    assume "Suc c < n" "Suc c mod n = Suc c"
    then show ?thesis
      using assms unfolding P C pos_ok_def in_step_def side_pair_def same_pos_def gen_def
      by (simp split: if_splits, (arith+)?)
  next
    assume "Suc c = n" "Suc c mod n = 0"
    then show ?thesis
      using assms unfolding P C pos_ok_def in_step_def side_pair_def same_pos_def gen_def
      by (simp split: if_splits, (arith+)?)
  qed
qed

lemma entered_nonempty:
  assumes "pos_ok n P" "pos_ok n C" "in_step n P C" "fill C = n" "\<not> same_pos P C"
  shows "0 \<noteq> snd (side_pair n P (blk (entered n C)))"
proof -
  obtain L p a where P: "P = \<lparr>lap = L, blk = p, fill = a\<rparr>" by (cases P) simp
  obtain L' c r where C: "C = \<lparr>lap = L', blk = c, fill = r\<rparr>" by (cases C) simp
  have c: "c < n" using assms(2) by (simp add: pos_ok_def C)
  have p: "p < n" using assms(1) by (simp add: pos_ok_def P)
  show ?thesis
  proof (rule Suc_mod_cases [OF c])
    assume "Suc c < n" "Suc c mod n = Suc c"
    then show ?thesis
      using assms unfolding P C pos_ok_def in_step_def side_pair_def same_pos_def gen_def entered_def
      by (simp split: if_splits, (arith+)?)
  next
    assume "Suc c = n" "Suc c mod n = 0"
    then show ?thesis
      using assms unfolding P C pos_ok_def in_step_def side_pair_def same_pos_def gen_def entered_def
      by (simp split: if_splits, (arith+)?)
  qed
qed

lemma consumer_succ:
  assumes "pos_ok n P" "pos_ok n C" "in_step n P C" "\<not> same_pos P C"
  shows "pos_ok n (succ_pos n C) \<and> in_step n P (succ_pos n C)"
proof -
  obtain L p a where P: "P = \<lparr>lap = L, blk = p, fill = a\<rparr>" by (cases P) simp
  obtain L' c r where C: "C = \<lparr>lap = L', blk = c, fill = r\<rparr>" by (cases C) simp
  have c: "c < n" using assms(2) by (simp add: pos_ok_def C)
  have p: "p < n" using assms(1) by (simp add: pos_ok_def P)
  have a0: "a = 0 \<longrightarrow> L = 0 \<and> p = 0" and an: "a \<le> n"
    using assms(1) by (simp_all add: pos_ok_def P)
  have rn: "r \<le> n" using assms(2) by (simp add: pos_ok_def C)
  have st: "(L' = L \<and> (c < p \<or> (c = p \<and> r \<le> a))) \<or> (L = Suc L' \<and> (p < c \<or> (p = c \<and> r = n)))"
    using assms(3) by (simp add: in_step_def P C)
  have ne: "\<not> (L' = L \<and> c = p \<and> r = a)"
    using assms(4) by (simp add: same_pos_def P C)
  show ?thesis
  proof (cases "r < n")
    case True
    then have s: "succ_pos n C = \<lparr>lap = L', blk = c, fill = Suc r\<rparr>"
      by (simp add: succ_pos_def C)
    from True c st ne show ?thesis
      unfolding s P pos_ok_def in_step_def by simp arith
  next
    case False
    with rn have r: "r = n" by simp
    show ?thesis
    proof (cases "Suc c < n")
      case True
      then have s: "succ_pos n C = \<lparr>lap = L', blk = Suc c, fill = Suc 0\<rparr>"
        by (simp add: succ_pos_def C r)
      from True r c p st ne a0 an show ?thesis
        unfolding s P pos_ok_def in_step_def by simp arith
    next
      case False
      then have s: "succ_pos n C = \<lparr>lap = Suc L', blk = 0, fill = Suc 0\<rparr>"
        by (simp add: succ_pos_def C r)
      from False r c p st ne a0 an show ?thesis
        unfolding s P pos_ok_def in_step_def by simp arith
    qed
  qed
qed

lemma producer_succ:
  assumes "pos_ok n P" "pos_ok n C" "in_step n P C" "\<not> stalled n P C"
  shows "pos_ok n (succ_pos n P) \<and> in_step n (succ_pos n P) C"
proof -
  obtain L p a where P: "P = \<lparr>lap = L, blk = p, fill = a\<rparr>" by (cases P) simp
  obtain L' c r where C: "C = \<lparr>lap = L', blk = c, fill = r\<rparr>" by (cases C) simp
  have c: "c < n" using assms(2) by (simp add: pos_ok_def C)
  have p: "p < n" using assms(1) by (simp add: pos_ok_def P)
  show ?thesis
  proof (cases "a < n")
    case True
    then show ?thesis
      using assms(1-3) unfolding P C pos_ok_def in_step_def succ_pos_def
      by (simp, (arith+)?)
  next
    case False
    with assms(1) have a: "a = n" by (simp add: pos_ok_def P)
    show ?thesis
    proof (rule Suc_mod_cases [OF p])
      assume s: "Suc p < n" "Suc p mod n = Suc p"
      from assms(4) have ns: "\<not> (fst (side_pair n C (Suc p)) < L \<or>
          (fst (side_pair n C (Suc p)) = L \<and> snd (side_pair n C (Suc p)) \<noteq> n))"
        by (simp add: stalled_def P a s split_beta)
      have sp: "side_pair n C (Suc p) =
          (if Suc p < c then (Suc L', n) else if Suc p = c then (Suc L', r) else (L', n))"
        by (simp add: side_pair_def C gen_def)
      show ?thesis
        using assms(1-3) s a ns unfolding sp
        unfolding P C pos_ok_def in_step_def succ_pos_def
        by (simp split: if_splits, (arith+)?)
    next
      assume s: "Suc p = n" "Suc p mod n = 0"
      from assms(4) have ns: "\<not> (fst (side_pair n C 0) < L \<or>
          (fst (side_pair n C 0) = L \<and> snd (side_pair n C 0) \<noteq> n))"
        by (simp add: stalled_def P a s split_beta)
      have sp: "side_pair n C 0 = (if 0 < c then (L', n) else (L', r))"
        by (simp add: side_pair_def C gen_def)
      show ?thesis
        using assms(1-3) s a ns unfolding sp
        unfolding P C pos_ok_def in_step_def succ_pos_def
        by (simp split: if_splits, (arith+)?)
    qed
  qed
qed

lemma dequeue_ring:
  assumes sq: "square N B" and P: "pos_ok B P" and C: "pos_ok B C" and st: "in_step B P C"
    and bP: "lap P + 1 < 2 ^ 44" and bC: "lap C + 1 < 2 ^ 44"
    and len: "\<And>j. j < B \<Longrightarrow> length (s j) = B"
  shows "dequeue (Suc (Suc fuel)) N B t (ring_state B P C s) =
     (if same_pos P C then Inr (False, t, ring_state B P C s)
      else Inr (True, s (blk (succ_pos B C)) ! (fill (succ_pos B C) - 1),
             ring_state B P (succ_pos B C)
               (s(blk (succ_pos B C) := (s (blk (succ_pos B C)))[fill (succ_pos B C) - 1 := 0]))))"
proof -
  have c: "blk C < B" and r: "fill C \<le> B" and a: "fill P \<le> B"
    using P C by (simp_all add: pos_ok_def)
  have b: "0 < B" "B < 2 ^ 20" using square_bounds [OF sq] by simp_all
  let ?q = "ring_state B P C s"
  show ?thesis
  proof (cases "fill C < B")
    case True
    show ?thesis
      unfolding dequeue_in_block [where s = s and P = P and C = C, OF sq c True a len [OF c]]
        in_block_empty_iff [OF P C st True]
      using True by (simp add: succ_pos_fill)
  next
    case False
    with r have full: "fill C = B" by simp
    have i: "unat (index (chead ?q)) = blk C"
      using c b by (simp add: index_ctor)
    then have il: "unat (index (chead ?q)) < length (blocks ?q)" using c by simp
    have f: "unat (index (side_cursor B C (blk C))) = B"
      using full b by (simp add: side_cursor_self index_ctor)
    have step: "dequeue (Suc (Suc fuel)) N B t ?q =
       (case advance_chead N B (Field_ctor (lap C) (blk C))
               (sint (ucast (version (side_cursor B C (blk C))) :: 32 word)) ?q of
          Inl e \<Rightarrow> Inl e
        | Inr (ok, q') \<Rightarrow> if ok then dequeue (Suc fuel) N B t q' else Inr (False, t, q'))"
      unfolding dequeue_eq [OF il] i
      using sq c f by (simp add: Let_def ring_state_nth)
    show ?thesis
    proof (cases "same_pos P C")
      case True
      then show ?thesis
        unfolding step advance_chead_ring [OF sq c full a bP bC]
          advance_ok_iff [OF P C st full]
        by simp
    next
      case False
      let ?E = "entered B C"
      have e: "blk ?E < B" "fill ?E < B" using b by (simp_all add: entered_def)
      have z: "fill ?E = 0" by (simp add: entered_def)
      have ne: "fill ?E \<noteq> snd (side_pair B P (blk ?E))"
        unfolding z by (rule entered_nonempty [OF P C st full False])
      have d: "dequeue (Suc fuel) N B t (ring_state B P ?E s) =
          Inr (True, s (blk ?E) ! 0,
             ring_state B P (?E\<lparr>fill := Suc 0\<rparr>) (s(blk ?E := (s (blk ?E))[0 := 0])))"
        using dequeue_in_block [where s = s and P = P and fuel = fuel and t = t and C = ?E,
            OF sq e a len [OF e(1)]] ne
        by (simp add: z)
      from False show ?thesis
        unfolding step advance_chead_ring [OF sq c full a bP bC]
          advance_ok_iff [OF P C st full] succ_pos_entered [OF c full]
        by (simp add: d del: dequeue.simps)
    qed
  qed
qed

subsection \<open>Items in their slots\<close>

lemma count_succ:
  assumes "blk P < n" "fill P \<le> n"
  shows "count n (succ_pos n P) = Suc (count n P)"
proof (cases "fill P < n")
  case True
  then show ?thesis by (simp add: succ_pos_def count_def)
next
  case False
  with assms have f: "fill P = n" by simp
  show ?thesis
  proof (cases "Suc (blk P) < n")
    case True
    with f show ?thesis by (simp add: succ_pos_def count_def)
  next
    case False
    with assms have "Suc (blk P) = n" by simp
    then have "blk P * n + n = n * n" by (metis mult_Suc mult.commute add.commute)
    with f False show ?thesis by (simp add: succ_pos_def count_def)
  qed
qed

lemma lap_le_count: "0 < n \<Longrightarrow> lap P \<le> count n P"
proof -
  assume "0 < n"
  then have "1 \<le> n * n" by (simp add: Suc_le_eq)
  then have "lap P * 1 \<le> lap P * (n * n)" by (rule mult_le_mono2)
  then have "lap P \<le> lap P * (n * n)" by simp
  then show ?thesis unfolding count_def by (simp only: trans_le_add1)
qed

lemma in_step_counts:
  assumes "pos_ok n P" "pos_ok n C" "in_step n P C"
  shows "count n C \<le> count n P" and "count n P \<le> count n C + n * n"
    and "lap C \<le> lap P"
proof -
  obtain L p a where P: "P = \<lparr>lap = L, blk = p, fill = a\<rparr>" by (cases P) simp
  obtain L' c r where C: "C = \<lparr>lap = L', blk = c, fill = r\<rparr>" by (cases C) simp
  have b: "p < n" "a \<le> n" "c < n" "r \<le> n" "a = 0 \<longrightarrow> L = 0 \<and> p = 0"
    using assms(1,2) by (simp_all add: pos_ok_def P C)
  have st: "(L' = L \<and> (c < p \<or> (c = p \<and> r \<le> a))) \<or> (L = Suc L' \<and> (p < c \<or> (p = c \<and> r = n)))"
    using assms(3) by (simp add: in_step_def P C)
  have up: "\<And>x y. x < y \<Longrightarrow> x * n + n \<le> y * n"
  proof -
    fix x y :: nat assume "x < y"
    then have "Suc x * n \<le> y * n" by (intro mult_le_mono1) simp
    then show "x * n + n \<le> y * n" by simp
  qed
  have pn: "p * n + n \<le> n * n" "c * n + n \<le> n * n" using up b by simp_all
  show "lap C \<le> lap P" using st by (auto simp: P C)
  from st show "count n C \<le> count n P"
  proof (elim disjE conjE)
    assume "L' = L" "c < p"
    with up [of c p] b show ?thesis by (simp add: count_def P C)
  next
    assume "L' = L" "c = p" "r \<le> a"
    then show ?thesis by (simp add: count_def P C)
  next
    assume "L = Suc L'" "p < c"
    with pn b show ?thesis by (simp add: count_def P C)
  next
    assume "L = Suc L'" "p = c" "r = n"
    with pn b show ?thesis by (simp add: count_def P C)
  qed
  from st show "count n P \<le> count n C + n * n"
  proof (elim disjE conjE)
    assume "L' = L" "c < p"
    with pn b show ?thesis by (simp add: count_def P C)
  next
    assume "L' = L" "c = p" "r \<le> a"
    with pn b show ?thesis by (simp add: count_def P C)
  next
    assume "L = Suc L'" "p < c"
    with up [of p c] b show ?thesis by (simp add: count_def P C)
  next
    assume "L = Suc L'" "p = c" "r = n"
    with b show ?thesis by (simp add: count_def P C)
  qed
qed

lemma slot_of_count:
  assumes "blk P < n" "fill P \<le> n" "0 < fill P"
  shows "((count n P - 1) mod (n * n)) div n = blk P" and "(count n P - 1) mod n = fill P - 1"
proof -
  let ?k = "fill P - 1"
  have k: "?k < n" using assms by simp
  have c: "count n P - 1 = lap P * (n * n) + (blk P * n + ?k)"
    using assms by (simp add: count_def)
  have "Suc (blk P) * n \<le> n * n" using assms(1) by (intro mult_le_mono1) simp
  then have lt: "blk P * n + ?k < n * n" using k by simp
  have m: "(count n P - 1) mod (n * n) = blk P * n + ?k"
    unfolding c using lt by simp
  show "((count n P - 1) mod (n * n)) div n = blk P"
    unfolding m using k by simp
  have "(count n P - 1) mod n = ((lap P * n + blk P) * n + ?k) mod n"
    unfolding c by (simp add: algebra_simps)
  also have "\<dots> = ?k mod n" by (simp only: mod_mult_self3)
  also have "\<dots> = ?k" using k by simp
  finally show "(count n P - 1) mod n = fill P - 1" .
qed

lemma window_distinct:
  fixes m m' n :: nat
  assumes "m < m'" "m' < m + n * n" "0 < n"
  shows "\<not> ((m mod (n * n)) div n = (m' mod (n * n)) div n \<and> m mod n = m' mod n)"
proof
  assume a: "(m mod (n * n)) div n = (m' mod (n * n)) div n \<and> m mod n = m' mod n"
  have r: "\<And>x. (x mod (n * n)) mod n = x mod n"
    by (rule mod_mod_cancel) simp
  have "m mod (n * n) = ((m mod (n * n)) div n) * n + (m mod (n * n)) mod n" by simp
  also have "\<dots> = ((m' mod (n * n)) div n) * n + (m' mod (n * n)) mod n"
    using a by (simp add: r)
  also have "\<dots> = m' mod (n * n)" by simp
  finally have e: "m mod (n * n) = m' mod (n * n)" .
  then have "(n * n) dvd (m' - m)"
    using assms(1) by (metis mod_eq_dvd_iff_nat less_imp_le)
  moreover have "0 < m' - m" "m' - m < n * n" using assms by simp_all
  ultimately show False by (meson dvd_imp_le not_le)
qed

lemma succ_pos_fill_pos: "0 < fill (succ_pos n P)"
  by (simp add: succ_pos_def)

lemma slot_update_other:
  assumes "\<not> (j = j' \<and> k = k')"
  shows "(s(j' := (s j')[k' := t])) j ! k = s j ! k"
proof (cases "j = j'")
  case True
  with assms have "k \<noteq> k'" by simp
  with True show ?thesis by simp
next
  case False
  then show ?thesis by simp
qed

lemma ring_rel_laps:
  assumes sq: "square N B" and R: "ring_rel B P C s E d" and bd: "length E + 1 < 2 ^ 44"
  shows "lap P + 1 < 2 ^ 44" and "lap C + 1 < 2 ^ 44"
proof -
  have B: "0 < B" using square_bounds [OF sq] by simp
  have "lap P \<le> count B P" using B by (rule lap_le_count)
  also have "\<dots> = length E" using R by (simp add: ring_rel_def)
  finally have 1: "lap P \<le> length E" .
  then show "lap P + 1 < 2 ^ 44" using bd by simp
  have "lap C \<le> lap P" using R by (intro in_step_counts(3) [of B]) (simp_all add: ring_rel_def)
  with 1 show "lap C + 1 < 2 ^ 44" using bd by simp
qed

lemma enqueue_rel:
  assumes sq: "square N B" and R: "ring_rel B P C s E d" and bd: "length E + 1 < 2 ^ 44"
  shows "\<exists>ok P' s'. enqueue (Suc (Suc fuel)) N B t (ring_state B P C s) = Inr (ok, ring_state B P' C s')
           \<and> ring_rel B P' C s' (if ok then E @ [t] else E) d
           \<and> (\<not> ok \<longrightarrow> P' = P \<and> s' = s)"
proof -
  have B: "0 < B" using square_bounds [OF sq] by simp
  have P: "pos_ok B P" and C: "pos_ok B C" and st: "in_step B P C"
    and cP: "count B P = length E" and cC: "count B C = d"
    and len: "\<And>j. j < B \<Longrightarrow> length (s j) = B" and sl: "slots_hold B s E d"
    using R by (simp_all add: ring_rel_def)
  have pb: "blk P < B" "fill P \<le> B" "fill C \<le> B" using P C by (simp_all add: pos_ok_def)
  note laps = ring_rel_laps [OF sq R bd]
  let ?P = "succ_pos B P"
  let ?j = "blk ?P" and ?k = "fill ?P - 1"
  let ?s = "s(?j := (s ?j)[?k := t])"
  have run: "enqueue (Suc (Suc fuel)) N B t (ring_state B P C s) =
      (if stalled B P C then Inr (False, ring_state B P C s)
       else Inr (True, ring_state B ?P C ?s))"
    using sq pb laps len by (rule enqueue_ring [where s = s and P = P and C = C])
  show ?thesis
  proof (cases "stalled B P C")
    case True
    have "enqueue (Suc (Suc fuel)) N B t (ring_state B P C s) = Inr (False, ring_state B P C s)
       \<and> ring_rel B P C s (if False then E @ [t] else E) d \<and> (\<not> False \<longrightarrow> P = P \<and> s = s)"
      using run True R by simp
    then show ?thesis by blast
  next
    case False
    have nx: "pos_ok B ?P" "in_step B ?P C"
      using producer_succ [OF P C st False] by simp_all
    have cP': "count B ?P = Suc (length E)"
      using count_succ [OF pb(1,2)] cP by simp
    have jk: "?j < B" "fill ?P \<le> B" "0 < fill ?P"
      using nx(1) succ_pos_fill_pos [of B P] by (simp_all add: pos_ok_def)
    have k: "?k < B" using jk by simp
    have so: "((length E) mod (B * B)) div B = ?j" "length E mod B = ?k"
      using slot_of_count [OF jk] cP' by simp_all
    have cap: "Suc (length E) \<le> d + B * B"
      using in_step_counts(2) [OF nx(1) C nx(2)] cP' cC by simp
    have len': "\<And>j. j < B \<Longrightarrow> length (?s j) = B" using len by simp
    have "slots_hold B ?s (E @ [t]) d"
      unfolding slots_hold_def
    proof (intro allI impI)
      fix m assume m: "d \<le> m \<and> m < length (E @ [t])"
      show "?s ((m mod (B * B)) div B) ! (m mod B) = (E @ [t]) ! m"
      proof (cases "m = length E")
        case True
        have "?s ?j ! ?k = t" using len [OF jk(1)] k by simp
        then show ?thesis using True so by simp
      next
        case False
        with m have lt: "m < length E" by simp
        have "length E < m + B * B" using cap m by simp
        from window_distinct [OF lt this B] so
        have "\<not> ((m mod (B * B)) div B = ?j \<and> m mod B = ?k)" by simp
        then have "?s ((m mod (B * B)) div B) ! (m mod B) = s ((m mod (B * B)) div B) ! (m mod B)"
          by (rule slot_update_other)
        also have "\<dots> = E ! m" using sl m lt by (simp add: slots_hold_def)
        finally show ?thesis using lt by (simp add: nth_append)
      qed
    qed
    then have "ring_rel B ?P C ?s (E @ [t]) d"
      using nx C cP' cC len' by (simp add: ring_rel_def)
    then have "enqueue (Suc (Suc fuel)) N B t (ring_state B P C s) = Inr (True, ring_state B ?P C ?s)
       \<and> ring_rel B ?P C ?s (if True then E @ [t] else E) d \<and> (\<not> True \<longrightarrow> ?P = P \<and> ?s = s)"
      using run False by simp
    then show ?thesis by blast
  qed
qed

lemma same_pos_count: "same_pos P C \<Longrightarrow> count n C = count n P"
  by (simp add: same_pos_def count_def)

lemma dequeue_rel:
  assumes sq: "square N B" and R: "ring_rel B P C s E d" and bd: "length E + 1 < 2 ^ 44"
  shows "\<exists>ok x C' s'. dequeue (Suc (Suc fuel)) N B t (ring_state B P C s) = Inr (ok, x, ring_state B P C' s')
           \<and> ring_rel B P C' s' E (if ok then Suc d else d)
           \<and> (ok \<longrightarrow> d < length E \<and> x = E ! d)
           \<and> (\<not> ok \<longrightarrow> d = length E \<and> x = t \<and> C' = C \<and> s' = s)"
proof -
  have B: "0 < B" using square_bounds [OF sq] by simp
  have P: "pos_ok B P" and C: "pos_ok B C" and st: "in_step B P C"
    and cP: "count B P = length E" and cC: "count B C = d"
    and len: "\<And>j. j < B \<Longrightarrow> length (s j) = B" and sl: "slots_hold B s E d"
    using R by (simp_all add: ring_rel_def)
  have pb: "blk C < B" "fill C \<le> B" using C by (simp_all add: pos_ok_def)
  note laps = ring_rel_laps [OF sq R bd]
  let ?C = "succ_pos B C"
  let ?j = "blk ?C" and ?k = "fill ?C - 1"
  let ?s = "s(?j := (s ?j)[?k := 0])"
  have run: "dequeue (Suc (Suc fuel)) N B t (ring_state B P C s) =
      (if same_pos P C then Inr (False, t, ring_state B P C s)
       else Inr (True, s ?j ! ?k, ring_state B P ?C ?s))"
    using sq P C st laps len by (rule dequeue_ring [where s = s and P = P and C = C])
  show ?thesis
  proof (cases "same_pos P C")
    case True
    have "d = length E" using same_pos_count [OF True, of B] cP cC by simp
    then have "dequeue (Suc (Suc fuel)) N B t (ring_state B P C s) = Inr (False, t, ring_state B P C s)
       \<and> ring_rel B P C s E (if False then Suc d else d)
       \<and> (False \<longrightarrow> d < length E \<and> t = E ! d)
       \<and> (\<not> False \<longrightarrow> d = length E \<and> t = t \<and> C = C \<and> s = s)"
      using run True R by simp
    then show ?thesis by blast
  next
    case False
    have nx: "pos_ok B ?C" "in_step B P ?C"
      using consumer_succ [OF P C st False] by simp_all
    have cC': "count B ?C = Suc d"
      using count_succ [OF pb] cC by simp
    have jk: "?j < B" "fill ?C \<le> B" "0 < fill ?C"
      using nx(1) succ_pos_fill_pos [of B C] by (simp_all add: pos_ok_def)
    have k: "?k < B" using jk by simp
    have so: "(d mod (B * B)) div B = ?j" "d mod B = ?k"
      using slot_of_count [OF jk] cC' by simp_all
    have dl: "d < length E"
      using in_step_counts(1) [OF P nx(1) nx(2)] cC' cP by simp
    have cap: "length E \<le> d + B * B"
      using in_step_counts(2) [OF P C st] cP cC by simp
    have "s ((d mod (B * B)) div B) ! (d mod B) = E ! d"
      using sl dl by (simp add: slots_hold_def)
    then have x: "s ?j ! ?k = E ! d"
      by (simp only: so)
    have len': "\<And>j. j < B \<Longrightarrow> length (?s j) = B" using len by simp
    have "slots_hold B ?s E (Suc d)"
      unfolding slots_hold_def
    proof (intro allI impI)
      fix m assume m: "Suc d \<le> m \<and> m < length E"
      then have lt: "d < m" by simp
      have "m < d + B * B" using cap m by simp
      then have "\<not> ((d mod (B * B)) div B = (m mod (B * B)) div B \<and> d mod B = m mod B)"
        using lt B by (intro window_distinct)
      then have "\<not> ((m mod (B * B)) div B = ?j \<and> m mod B = ?k)"
        unfolding so by auto
      then have "?s ((m mod (B * B)) div B) ! (m mod B) = s ((m mod (B * B)) div B) ! (m mod B)"
        by (rule slot_update_other)
      also have "\<dots> = E ! m" using sl m by (simp add: slots_hold_def)
      finally show "?s ((m mod (B * B)) div B) ! (m mod B) = E ! m" .
    qed
    then have "ring_rel B P ?C ?s E (Suc d)"
      using nx P cC' cP len' by (simp add: ring_rel_def)
    then have "dequeue (Suc (Suc fuel)) N B t (ring_state B P C s) = Inr (True, s ?j ! ?k, ring_state B P ?C ?s)
       \<and> ring_rel B P ?C ?s E (if True then Suc d else d)
       \<and> (True \<longrightarrow> d < length E \<and> s ?j ! ?k = E ! d)
       \<and> (\<not> True \<longrightarrow> d = length E \<and> s ?j ! ?k = t \<and> ?C = C \<and> ?s = s)"
      using run False dl x by simp
    then show ?thesis by blast
  qed
qed

lemma Queue_ctor_ring:
  assumes sq: "square N B"
  shows "Queue_ctor N B mem = ring_state B start_pos start_pos (\<lambda>j. map (mem j) [0..<B])"
proof -
  have "\<And>j. side_cursor B start_pos j = Field_ctor 0 (if j = 0 then 0 else B)"
    by (simp add: side_cursor_def side_pair_def start_pos_def gen_def)
  then show ?thesis
    using sq by (simp add: Queue_ctor_def ring_state_def Block_init_def Let_def start_pos_def)
qed

lemma ring_rel_start:
  "0 < B \<Longrightarrow> ring_rel B start_pos start_pos (\<lambda>j. map (mem j) [0..<B]) [] 0"
  by (simp add: ring_rel_def pos_ok_def in_step_def count_def slots_hold_def start_pos_def)

lemma run_rel:
  assumes sq: "square N B"
  shows "ring_rel B P C s E d \<Longrightarrow> length E + length cs + 1 < 2 ^ 44 \<Longrightarrow>
     \<exists>outs P' C' s'.
       run (Suc (Suc fuel)) N B cs (ring_state B P C s) = Inr (outs, ring_state B P' C' s')
       \<and> ring_rel B P' C' s' (E @ accepted outs) (d + length (delivered outs))
       \<and> delivered outs = take (length (delivered outs)) (drop d (E @ accepted outs))"
proof (induction cs arbitrary: P C s E d)
  case Nil
  have "run (Suc (Suc fuel)) N B [] (ring_state B P C s) = Inr ([], ring_state B P C s)
       \<and> ring_rel B P C s (E @ accepted []) (d + length (delivered ([] :: 'a outcome list)))
       \<and> delivered [] = take (length (delivered ([] :: 'a outcome list))) (drop d (E @ accepted []))"
    using Nil by simp
  then show ?case by blast
next
  case (Cons c cs)
  have bd: "length E + 1 < 2 ^ 44" using Cons.prems(2) by simp
  show ?case
  proof (cases c)
    case (Enqueue t)
    obtain ok P1 s1 where
      e: "enqueue (Suc (Suc fuel)) N B t (ring_state B P C s) = Inr (ok, ring_state B P1 C s1)"
      and R1: "ring_rel B P1 C s1 (if ok then E @ [t] else E) d"
      using enqueue_rel [OF sq Cons.prems(1) bd, of fuel t] by blast
    let ?E = "if ok then E @ [t] else E"
    have "length ?E + length cs + 1 < 2 ^ 44" using Cons.prems(2) by simp
    from Cons.IH [OF R1 this] obtain outs P' C' s' where
      r: "run (Suc (Suc fuel)) N B cs (ring_state B P1 C s1) = Inr (outs, ring_state B P' C' s')"
      and R': "ring_rel B P' C' s' (?E @ accepted outs) (d + length (delivered outs))"
      and D: "delivered outs = take (length (delivered outs)) (drop d (?E @ accepted outs))"
      by blast
    let ?outs = "Enqueued t ok # outs"
    have a: "E @ accepted ?outs = ?E @ accepted outs" by simp
    have "run (Suc (Suc fuel)) N B (c # cs) (ring_state B P C s) = Inr (?outs, ring_state B P' C' s')"
      using e r Enqueue by simp
    moreover have "ring_rel B P' C' s' (E @ accepted ?outs) (d + length (delivered ?outs))"
      using R' unfolding a by simp
    moreover have "delivered ?outs = take (length (delivered ?outs)) (drop d (E @ accepted ?outs))"
      using D unfolding a by simp
    ultimately show ?thesis by blast
  next
    case (Dequeue t)
    obtain ok x C1 s1 where
      e: "dequeue (Suc (Suc fuel)) N B t (ring_state B P C s) = Inr (ok, x, ring_state B P C1 s1)"
      and R1: "ring_rel B P C1 s1 E (if ok then Suc d else d)"
      and x: "ok \<longrightarrow> d < length E \<and> x = E ! d"
      using dequeue_rel [OF sq Cons.prems(1) bd, of fuel t] by blast
    let ?d = "if ok then Suc d else d"
    have "length E + length cs + 1 < 2 ^ 44" using Cons.prems(2) by simp
    from Cons.IH [OF R1 this] obtain outs P' C' s' where
      r: "run (Suc (Suc fuel)) N B cs (ring_state B P C1 s1) = Inr (outs, ring_state B P' C' s')"
      and R': "ring_rel B P' C' s' (E @ accepted outs) (?d + length (delivered outs))"
      and D: "delivered outs = take (length (delivered outs)) (drop ?d (E @ accepted outs))"
      by blast
    let ?outs = "Dequeued x ok # outs"
    let ?EE = "E @ accepted outs"
    have a: "E @ accepted ?outs = ?EE" by simp
    have n: "d + length (delivered ?outs) = ?d + length (delivered outs)" by simp
    have "run (Suc (Suc fuel)) N B (c # cs) (ring_state B P C s) = Inr (?outs, ring_state B P' C' s')"
      using e r Dequeue by simp
    moreover have "ring_rel B P' C' s' (E @ accepted ?outs) (d + length (delivered ?outs))"
      using R' unfolding a n by simp
    moreover have "delivered ?outs = take (length (delivered ?outs)) (drop d (E @ accepted ?outs))"
    proof (cases ok)
      case True
      with x have dl: "d < length ?EE" and xe: "x = ?EE ! d" by (simp_all add: nth_append)
      have "drop d ?EE = x # drop (Suc d) ?EE"
        unfolding xe using dl by (rule Cons_nth_drop_Suc [symmetric])
      then have "take (Suc (length (delivered outs))) (drop d ?EE) =
          x # take (length (delivered outs)) (drop (Suc d) ?EE)" by simp
      with D True show ?thesis unfolding a by simp
    next
      case False
      with D show ?thesis unfolding a by simp
    qed
    ultimately show ?thesis by blast
  qed
qed

lemma ring_state_heads:
  assumes sq: "square N B" and R: "ring_rel B P C s E d"
  shows "unat (index (phead (ring_state B P C s))) < B"
    and "unat (index (chead (ring_state B P C s))) < B"
    and "wf_queue N B (ring_state B P C s)"
proof -
  have B: "B < 2 ^ 20" using square_bounds [OF sq] by simp
  have b: "blk P < B" "blk C < B" and len: "\<And>j. j < B \<Longrightarrow> length (s j) = B"
    using R by (simp_all add: ring_rel_def pos_ok_def)
  show "unat (index (phead (ring_state B P C s))) < B"
    using b(1) B by (simp add: index_ctor)
  show "unat (index (chead (ring_state B P C s))) < B"
    using b(2) B by (simp add: index_ctor)
  show "wf_queue N B (ring_state B P C s)"
    using sq len by (simp add: wf_queue_def ring_state_def list_all_iff)
qed

lemma square_reachable:
  assumes sq: "square N B" and bd: "length cs + 1 < 2 ^ 44"
  shows "\<exists>outs P C s.
       run (Suc (Suc fuel)) N B cs (Queue_ctor N B mem) = Inr (outs, ring_state B P C s)
       \<and> ring_rel B P C s (accepted outs) (length (delivered outs))
       \<and> delivered outs = take (length (delivered outs)) (accepted outs)"
proof -
  have B: "0 < B" using square_bounds [OF sq] by simp
  have "length ([] :: 'a list) + length cs + 1 < 2 ^ 44" using bd by simp
  from run_rel [OF sq ring_rel_start [OF B] this, of fuel mem]
  show ?thesis unfolding Queue_ctor_ring [OF sq] by simp
qed

lemma square_fifo:
  assumes sq: "square N B" and bd: "length cs + 1 < 2 ^ 44"
  shows "\<exists>outs q.
       run (Suc (Suc fuel)) N B cs (Queue_ctor N B mem) = Inr (outs, q)
       \<and> delivered outs = take (length (delivered outs)) (accepted outs)
       \<and> wf_queue N B q
       \<and> unat (index (phead q)) < B \<and> unat (index (chead q)) < B"
proof -
  from square_reachable [OF sq bd, of fuel mem] obtain outs P C s where
    r: "run (Suc (Suc fuel)) N B cs (Queue_ctor N B mem) = Inr (outs, ring_state B P C s)"
    and R: "ring_rel B P C s (accepted outs) (length (delivered outs))"
    and D: "delivered outs = take (length (delivered outs)) (accepted outs)"
    by blast
  from r D ring_state_heads [OF sq R] show ?thesis by blast
qed

lemma accepted_length: "length (accepted outs) \<le> length outs"
  by (induction outs rule: accepted.induct) auto

lemma run_length:
  "run fuel N B cs q = Inr (outs, q') \<Longrightarrow> length outs = length cs"
proof (induction cs arbitrary: q outs)
  case Nil
  then show ?case by simp
next
  case (Cons c cs)
  then show ?case
    by (auto split: sum.splits prod.splits)
qed

lemma square_refused_enqueue:
  assumes sq: "square N B" and bd: "length cs + 2 < 2 ^ 44"
    and r: "run (Suc (Suc fuel)) N B cs (Queue_ctor N B mem) = Inr (outs, q)"
  shows "\<exists>ok q'. enqueue (Suc (Suc k)) N B t q = Inr (ok, q') \<and> (\<not> ok \<longrightarrow> q' = q)"
proof -
  have "length cs + 1 < 2 ^ 44" using bd by simp
  from square_reachable [OF sq this, of fuel mem] r obtain P C s where
    q: "q = ring_state B P C s"
    and R: "ring_rel B P C s (accepted outs) (length (delivered outs))"
    by auto
  have "length (accepted outs) \<le> length cs"
    using accepted_length [of outs] run_length [OF r] by simp
  then have "length (accepted outs) + 1 < 2 ^ 44" using bd by simp
  from enqueue_rel [OF sq R this, of k t] show ?thesis unfolding q by blast
qed

lemma square_refused_dequeue:
  assumes sq: "square N B" and bd: "length cs + 2 < 2 ^ 44"
    and r: "run (Suc (Suc fuel)) N B cs (Queue_ctor N B mem) = Inr (outs, q)"
  shows "\<exists>ok x q'. dequeue (Suc (Suc k)) N B t q = Inr (ok, x, q') \<and>
           (\<not> ok \<longrightarrow> q' = q \<and> x = t \<and> delivered outs = accepted outs)"
proof -
  have "length cs + 1 < 2 ^ 44" using bd by simp
  from square_reachable [OF sq this, of fuel mem] r obtain P C s where
    q: "q = ring_state B P C s"
    and R: "ring_rel B P C s (accepted outs) (length (delivered outs))"
    and D: "delivered outs = take (length (delivered outs)) (accepted outs)"
    by auto
  have "length (accepted outs) \<le> length cs"
    using accepted_length [of outs] run_length [OF r] by simp
  then have "length (accepted outs) + 1 < 2 ^ 44" using bd by simp
  from dequeue_rel [OF sq R this, of k t] obtain ok x C' s' where
    e: "dequeue (Suc (Suc k)) N B t (ring_state B P C s) = Inr (ok, x, ring_state B P C' s')"
    and f: "\<not> ok \<longrightarrow> length (delivered outs) = length (accepted outs) \<and> x = t \<and> C' = C \<and> s' = s"
    by blast
  have "\<not> ok \<longrightarrow> delivered outs = accepted outs"
  proof
    assume "\<not> ok"
    with f have "length (delivered outs) = length (accepted outs)" by simp
    with D show "delivered outs = accepted outs" by simp
  qed
  with e f show ?thesis unfolding q by blast
qed

end
